theory Spec2Isabelle
  imports Main
begin

section \<open>The TODO list of \<^verbatim>\<open>packages/core/src/tools/todo.ts\<close>\<close>

text \<open>
  The development embeds the class \<^verbatim>\<open>TodoManager\<close> and the method
  \<^verbatim>\<open>TodoTool.execute\<close>. Two models are given. In the first a step is a value and
  the array \<^verbatim>\<open>this.steps\<close> is a list of steps; every method takes the manager and
  returns the updated one. In the second (section "Objects and arrays in a store")
  steps and arrays are cells of a store, addressed by references, so that the sharing
  between the array held by the manager and the array returned by \<^verbatim>\<open>getSteps\<close>
  is visible.

  Numbers: \<^verbatim>\<open>nextId\<close> is a JavaScript number that starts at 1 and is only ever
  set to 1, to \<open>length + 1\<close> or to its successor. It is modelled by \<open>nat\<close>,
  which is exact as long as the counter stays below \<open>2^53\<close>, where the successor
  of a JavaScript number is no longer the next integer. Strings are lists of characters;
  nothing here depends on the width of a character.
\<close>

subsection \<open>Strings and numbers\<close>

definition digit_char :: "nat \<Rightarrow> char" where
  "digit_char d = ''0123456789'' ! d"

text \<open>\<^verbatim>\<open>Number.prototype.toString()\<close> on a non-negative integer: its decimal digits.\<close>

fun toString :: "nat \<Rightarrow> string" where
  "toString n =
     (if n < 10 then [digit_char n]
      else toString (n div 10) @ [digit_char (n mod 10)])"

declare toString.simps [simp del]

text \<open>The number a decimal numeral denotes (used to compare ids as numbers).\<close>

definition digit_val :: "char \<Rightarrow> nat" where
  "digit_val c = of_char c - 48"

definition idValue :: "string \<Rightarrow> nat" where
  "idValue s = foldl (\<lambda>acc c. 10 * acc + digit_val c) 0 s"

text \<open>\<^verbatim>\<open>Array.prototype.join(sep)\<close> on an array of strings.\<close>

fun join :: "string \<Rightarrow> string list \<Rightarrow> string" where
  "join sep [] = []"
| "join sep [x] = x"
| "join sep (x # y # ys) = x @ sep @ join sep (y # ys)"

text \<open>The pieces of a string between line feeds (the inverse view of \<open>join\<close>).\<close>

fun lines_of :: "string \<Rightarrow> string list" where
  "lines_of [] = [[]]"
| "lines_of (c # cs) =
     (if c = CHR 0x0A then [] # lines_of cs
      else (case lines_of cs of l # ls \<Rightarrow> (c # l) # ls | [] \<Rightarrow> [[c]]))"

text \<open>
  \<^verbatim>\<open>Array.prototype.findIndex\<close>: the index of the first element that satisfies the
  predicate, \<open>-1\<close> when there is none.
\<close>

fun findIndex :: "('a \<Rightarrow> bool) \<Rightarrow> 'a list \<Rightarrow> int" where
  "findIndex P [] = - 1"
| "findIndex P (x # xs) =
     (if P x then 0
      else (let i = findIndex P xs in if i = - 1 then - 1 else i + 1))"

text \<open>\<^verbatim>\<open>xs.splice(index, 1)\<close> for \<open>0 \<le> index\<close>: the array without that element.\<close>

definition splice1 :: "int \<Rightarrow> 'a list \<Rightarrow> 'a list" where
  "splice1 index xs = take (nat index) xs @ drop (nat index + 1) xs"

subsection \<open>Data model\<close>

text \<open>
  \<^verbatim>\<open>enum TodoStatus\<close> is a string enum: at run time a status is a string, and
  \<^verbatim>\<open>execute\<close> casts the request's string to it unchecked.
\<close>

type_synonym TodoStatus = string

definition NOT_MADE :: TodoStatus where "NOT_MADE = ''not_made''"
definition IN_PROGRESS :: TodoStatus where "IN_PROGRESS = ''in_progress''"
definition MADE :: TodoStatus where "MADE = ''made''"

record TodoStep =
  id_step :: string
  title :: string
  description :: string
  status :: TodoStatus

record TodoManager =
  steps :: "TodoStep list"
  nextId :: nat

text \<open>The manager as its field initialisers leave it.\<close>

definition new_TodoManager :: TodoManager where
  "new_TodoManager = \<lparr>steps = [], nextId = 1\<rparr>"

subsection \<open>The methods of \<^verbatim>\<open>TodoManager\<close>\<close>

text \<open>An entry of \<^verbatim>\<open>initializeTodo\<close>'s argument is the pair (title, description).\<close>

definition initializeTodo :: "TodoManager \<Rightarrow> (string \<times> string) list \<Rightarrow> TodoManager" where
  "initializeTodo m entries =
     (let new_steps =
            map (\<lambda>(index, step).
                   \<lparr>id_step = toString (index + 1), title = fst step,
                    description = snd step, status = NOT_MADE\<rparr>)
                (enumerate 0 entries)
      in m\<lparr>steps := new_steps, nextId := length new_steps + 1\<rparr>)"

definition addStep :: "TodoManager \<Rightarrow> string \<Rightarrow> string \<Rightarrow> string \<times> TodoManager" where
  "addStep m t d =
     (let i = toString (nextId m)
      in (i, m\<lparr>steps := steps m @ [\<lparr>id_step = i, title = t, description = d, status = NOT_MADE\<rparr>],
               nextId := nextId m + 1\<rparr>))"

definition deleteStep :: "TodoManager \<Rightarrow> string \<Rightarrow> bool \<times> TodoManager" where
  "deleteStep m i =
     (let index = findIndex (\<lambda>step. id_step step = i) (steps m)
      in if index \<noteq> - 1 then (True, m\<lparr>steps := splice1 index (steps m)\<rparr>)
         else (False, m))"

text \<open>
  \<^verbatim>\<open>find\<close> returns the first step object whose id matches and the assignment
  changes that object's field: in this model, the first matching element of the list.
\<close>

fun assign_status :: "string \<Rightarrow> TodoStatus \<Rightarrow> TodoStep list \<Rightarrow> TodoStep list" where
  "assign_status i st [] = []"
| "assign_status i st (step # rest) =
     (if id_step step = i then step\<lparr>status := st\<rparr> # rest
      else step # assign_status i st rest)"

definition updateStatus :: "TodoManager \<Rightarrow> string \<Rightarrow> TodoStatus \<Rightarrow> bool \<times> TodoManager" where
  "updateStatus m i st =
     (case find (\<lambda>step. id_step step = i) (steps m) of
        Some step \<Rightarrow> (True, m\<lparr>steps := assign_status i st (steps m)\<rparr>)
      | None \<Rightarrow> (False, m))"

definition getSteps :: "TodoManager \<Rightarrow> TodoStep list" where
  "getSteps m = steps m"

text \<open>
  The three literals of \<^verbatim>\<open>getStatusIcon\<close>, as the bytes the source file holds
  between the quotes.
\<close>

definition icon_not_made :: string where
  "icon_not_made = [CHR 0xC3, CHR 0xA2, CHR 0xC2, CHR 0xAD, CHR 0xE2, CHR 0x80, CHR 0xA2]"

definition icon_in_progress :: string where
  "icon_in_progress =
     [CHR 0xC3, CHR 0xB0, CHR 0xC5, CHR 0xB8, CHR 0xE2, CHR 0x80, CHR 0x9D, CHR 0xE2, CHR 0x80, CHR 0x9E]"

definition icon_made :: string where
  "icon_made = [CHR 0xC3, CHR 0xA2, CHR 0xC5, CHR 0x93, CHR 0xE2, CHR 0x80, CHR 0xA6]"

definition getStatusIcon :: "TodoStatus \<Rightarrow> string" where
  "getStatusIcon st =
     (if st = NOT_MADE then icon_not_made
      else if st = IN_PROGRESS then icon_in_progress
      else if st = MADE then icon_made
      else icon_not_made)"

definition step_line :: "TodoStep \<Rightarrow> string" where
  "step_line step = getStatusIcon (status step) @ '' '' @ title step"

definition getStepsForDisplay :: "TodoManager \<Rightarrow> string" where
  "getStepsForDisplay m =
     (if length (steps m) = 0 then ''''
      else join [CHR 0x0A] (map step_line (steps m)))"

definition clearTodo :: "TodoManager \<Rightarrow> TodoManager" where
  "clearTodo m = m\<lparr>steps := [], nextId := 1\<rparr>"

subsection \<open>Sequences of method calls\<close>

datatype op =
    Initialize "(string \<times> string) list"
  | Add string string
  | Delete string
  | UpdateStatus string TodoStatus
  | Clear

fun apply_op :: "TodoManager \<Rightarrow> op \<Rightarrow> TodoManager" where
  "apply_op m (Initialize entries) = initializeTodo m entries"
| "apply_op m (Add t d) = snd (addStep m t d)"
| "apply_op m (Delete i) = snd (deleteStep m i)"
| "apply_op m (UpdateStatus i st) = snd (updateStatus m i st)"
| "apply_op m Clear = clearTodo m"

definition run :: "TodoManager \<Rightarrow> op list \<Rightarrow> TodoManager" where
  "run m ops = foldl apply_op m ops"

text \<open>The ids a call hands out: the one \<^verbatim>\<open>addStep\<close> returns, the ones
  \<^verbatim>\<open>initializeTodo\<close> gives to its fresh records.\<close>

fun assigned_by :: "TodoManager \<Rightarrow> op \<Rightarrow> string list" where
  "assigned_by m (Initialize entries) = map id_step (steps (initializeTodo m entries))"
| "assigned_by m (Add t d) = [fst (addStep m t d)]"
| "assigned_by m _ = []"

fun assigned_ids :: "TodoManager \<Rightarrow> op list \<Rightarrow> string list" where
  "assigned_ids m [] = []"
| "assigned_ids m (x # xs) = assigned_by m x @ assigned_ids (apply_op m x) xs"

text \<open>The values \<^verbatim>\<open>nextId\<close> takes, before the first call and after each one.\<close>

fun counter_trace :: "TodoManager \<Rightarrow> op list \<Rightarrow> nat list" where
  "counter_trace m [] = [nextId m]"
| "counter_trace m (x # xs) = nextId m # counter_trace (apply_op m x) xs"

text \<open>A call that resets the counter: \<^verbatim>\<open>initializeTodo\<close> or \<^verbatim>\<open>clearTodo\<close>.\<close>

fun is_reset :: "op \<Rightarrow> bool" where
  "is_reset (Initialize entries) = True"
| "is_reset Clear = True"
| "is_reset _ = False"

definition reset_free :: "op list \<Rightarrow> bool" where
  "reset_free ops = (filter is_reset ops = [])"

text \<open>
  The ids in the list are pairwise distinct, and each is the decimal numeral of a number
  below the counter.
\<close>

definition well_numbered :: "TodoManager \<Rightarrow> bool" where
  "well_numbered m =
     (distinct (map id_step (steps m))
      \<and> list_all (\<lambda>i. toString (idValue i) = i \<and> idValue i < nextId m)
                   (map id_step (steps m)))"

text \<open>Consecutive calls of \<^verbatim>\<open>addStep\<close>, with the ids they return.\<close>

fun addSteps :: "TodoManager \<Rightarrow> (string \<times> string) list \<Rightarrow> string list \<times> TodoManager" where
  "addSteps m [] = ([], m)"
| "addSteps m ((t, d) # rest) =
     (let (i, m1) = addStep m t d;
          (ids, m2) = addSteps m1 rest
      in (i # ids, m2))"

subsection \<open>\<^verbatim>\<open>TodoTool.execute\<close>\<close>

text \<open>
  The request. An optional field is \<open>None\<close> when the request does not have it.
  \<^verbatim>\<open>steps\<close> is tested with \<^verbatim>\<open>Array.isArray\<close>, so a value that is not an array
  is a case of its own. The request comes from a language model as JSON, where an element
  of the array can be \<^verbatim>\<open>null\<close>: an element is \<open>Some (title, description)\<close> or
  \<open>None\<close> for \<^verbatim>\<open>null\<close>.
\<close>

datatype steps_value =
    StepsUndefined
  | StepsNotArray
  | StepsArray "(string \<times> string) option list"

text \<open>
  The call \<^verbatim>\<open>todoManager.initializeTodo(params.steps)\<close> on such an array. The
  callback of \<^verbatim>\<open>steps.map\<close> reads \<^verbatim>\<open>step.title\<close>, which throws a
  \<^verbatim>\<open>TypeError\<close> on \<^verbatim>\<open>null\<close>; this happens inside \<^verbatim>\<open>map\<close>, before
  \<^verbatim>\<open>this.steps\<close> and \<^verbatim>\<open>this.nextId\<close> are assigned, so the manager is as it
  was. \<open>Inl\<close> carries the message of the thrown error (the text is the one Node's
  engine gives), \<open>Inr\<close> the manager after a call that returned.
\<close>

definition null_title_error :: string where
  "null_title_error =
     ''Cannot read properties of null (reading '' @ [CHR 0x27] @ ''title'' @ [CHR 0x27] @ '')''"

definition initializeTodo_elements ::
  "TodoManager \<Rightarrow> (string \<times> string) option list \<Rightarrow> string + TodoManager" where
  "initializeTodo_elements m elements_arg =
     (case those elements_arg of
        Some entries \<Rightarrow> Inr (initializeTodo m entries)
      | None \<Rightarrow> Inl null_title_error)"

record TodoToolParams =
  params_action :: string
  params_steps :: steps_value
  params_step_id :: "string option"
  params_title :: "string option"
  params_description :: "string option"
  params_status :: "string option"

text \<open>
  The object that \<^verbatim>\<open>execute\<close> passes to \<^verbatim>\<open>JSON.stringify\<close> for
  \<^verbatim>\<open>llmContent\<close>; a key the object literal does not have is \<open>None\<close>.
\<close>

record LlmContent =
  json_success :: bool
  json_message :: "string option"
  json_error :: "string option"
  json_steps :: "TodoStep list option"
  json_step_id :: "string option"
  json_display :: "string option"

record ToolResult =
  llmContent :: LlmContent
  returnDisplay :: string

text \<open>\<^verbatim>\<open>!x\<close> on an optional string: true when it is undefined or empty.\<close>

definition falsy :: "string option \<Rightarrow> bool" where
  "falsy x = (case x of None \<Rightarrow> True | Some s \<Rightarrow> s = [])"

definition no_content :: LlmContent where
  "no_content =
     \<lparr>json_success = False, json_message = None, json_error = None,
      json_steps = None, json_step_id = None, json_display = None\<rparr>"

definition failure :: "string \<Rightarrow> ToolResult" where
  "failure msg =
     \<lparr>llmContent = no_content\<lparr>json_success := False, json_error := Some msg\<rparr>,
      returnDisplay = ''Error: '' @ msg\<rparr>"

definition succeeded :: "string \<Rightarrow> ToolResult" where
  "succeeded msg =
     \<lparr>llmContent = no_content\<lparr>json_success := True, json_message := Some msg\<rparr>,
      returnDisplay = msg\<rparr>"

text \<open>
  The body of the \<^verbatim>\<open>try\<close> block: \<open>Inl\<close> carries the message of a thrown
  error, with the manager as it is when the error is thrown, \<open>Inr\<close> the returned
  result. The one statement that throws on a request of this type is the call of
  \<^verbatim>\<open>initializeTodo\<close> on an array with a \<^verbatim>\<open>null\<close> element.
\<close>

definition execute_try ::
  "TodoManager \<Rightarrow> TodoToolParams \<Rightarrow> (string + ToolResult) \<times> TodoManager" where
  "execute_try m params =
     (if params_action params = ''initialize'' then
        (case params_steps params of
           StepsArray elements_arg \<Rightarrow>
             (case initializeTodo_elements m elements_arg of
                Inl thrown \<Rightarrow> (Inl thrown, m)
              | Inr m1 \<Rightarrow>
                  (Inr \<lparr>llmContent = no_content
                          \<lparr>json_success := True,
                           json_message := Some (''Initialized TODO list with ''
                                                  @ toString (length elements_arg) @ '' steps''),
                           json_steps := Some (getSteps m1)\<rparr>,
                        returnDisplay = ''TODO list initialized with ''
                                          @ toString (length elements_arg) @ '' steps''\<rparr>, m1))
         | _ \<Rightarrow> (Inr (failure ''Steps array required for initialize action''), m))
      else if params_action params = ''add'' then
        (if falsy (params_title params) \<or> falsy (params_description params)
         then (Inr (failure ''Title and description required for add action''), m)
         else
           (let (newId, m1) = addStep m (the (params_title params)) (the (params_description params))
            in (Inr \<lparr>llmContent = no_content
                        \<lparr>json_success := True,
                         json_message := Some (''Added step: '' @ the (params_title params)),
                         json_step_id := Some newId\<rparr>,
                      returnDisplay = ''Added step: '' @ the (params_title params)\<rparr>, m1)))
      else if params_action params = ''delete'' then
        (if falsy (params_step_id params)
         then (Inr (failure ''Step ID required for delete action''), m)
         else
           (let (deleted, m1) = deleteStep m (the (params_step_id params))
            in if deleted
               then (Inr (succeeded (''Deleted step '' @ the (params_step_id params))), m1)
               else (Inr (failure (''Step '' @ the (params_step_id params) @ '' not found'')), m1)))
      else if params_action params = ''update_status'' then
        (if falsy (params_step_id params) \<or> falsy (params_status params)
         then (Inr (failure ''Step ID and status required for update_status action''), m)
         else
           (let statusEnum = the (params_status params);
                (updated, m1) = updateStatus m (the (params_step_id params)) statusEnum
            in if updated
               then (Inr (succeeded (''Updated step '' @ the (params_step_id params)
                                      @ '' status to '' @ the (params_status params))), m1)
               else (Inr (failure (''Step '' @ the (params_step_id params) @ '' not found'')), m1)))
      else if params_action params = ''get_steps'' then
        (let steps1 = getSteps m
         in (Inr \<lparr>llmContent = no_content
                     \<lparr>json_success := True,
                      json_steps := Some steps1,
                      json_display := Some (getStepsForDisplay m)\<rparr>,
                   returnDisplay = (if length steps1 > 0 then getStepsForDisplay m
                                    else ''No TODO steps'')\<rparr>, m))
      else if params_action params = ''clear'' then
        (Inr (succeeded ''TODO list cleared''), clearTodo m)
      else (Inr (failure (''Unknown action: '' @ params_action params)), m))"

text \<open>The \<^verbatim>\<open>catch\<close> clause turns a thrown error into a failure result.\<close>

definition execute :: "TodoManager \<Rightarrow> TodoToolParams \<Rightarrow> ToolResult \<times> TodoManager" where
  "execute m params =
     (case execute_try m params of
        (Inr result, m1) \<Rightarrow> (result, m1)
      | (Inl errorMessage, m1) \<Rightarrow> (failure errorMessage, m1))"

section \<open>Objects and arrays in a store\<close>

text \<open>
  A step is an object and \<^verbatim>\<open>this.steps\<close> is an array of references to such
  objects. Here the store is the list of all cells allocated so far and a reference is
  a position in it; \<^verbatim>\<open>push\<close>, \<^verbatim>\<open>splice\<close> and the assignment to a field
  change a cell in place, an object or array literal, \<^verbatim>\<open>map\<close> and the spread
  \<^verbatim>\<open>[...xs]\<close> allocate a new cell.
\<close>

type_synonym ref = nat

datatype cell = StepObject TodoStep | ArrayObject "ref list"

type_synonym store = "cell list"

record TodoManagerRef =
  steps_ref :: ref
  next_id :: nat

definition allocate :: "store \<Rightarrow> cell \<Rightarrow> ref \<times> store" where
  "allocate h c = (length h, h @ [c])"

definition lookup :: "store \<Rightarrow> ref \<Rightarrow> cell option" where
  "lookup h r = (if r < length h then Some (h ! r) else None)"

text \<open>The references an array holds, and the step a reference leads to.\<close>

definition elements :: "store \<Rightarrow> ref \<Rightarrow> ref list" where
  "elements h r = (case lookup h r of Some (ArrayObject rs) \<Rightarrow> rs | _ \<Rightarrow> [])"

definition step_at :: "store \<Rightarrow> ref \<Rightarrow> TodoStep option" where
  "step_at h r = (case lookup h r of Some (StepObject s) \<Rightarrow> Some s | _ \<Rightarrow> None)"

text \<open>What a reader of the array at \<open>r\<close> sees: the steps its elements lead to.\<close>

definition contents :: "store \<Rightarrow> ref \<Rightarrow> TodoStep option list" where
  "contents h r = map (step_at h) (elements h r)"

definition has_id :: "store \<Rightarrow> string \<Rightarrow> ref \<Rightarrow> bool" where
  "has_id h i r = (case step_at h r of Some s \<Rightarrow> id_step s = i | None \<Rightarrow> False)"

text \<open>The store and the manager after the field initialisers.\<close>

definition new_TodoManagerRef :: "store \<times> TodoManagerRef" where
  "new_TodoManagerRef = ([ArrayObject []], \<lparr>steps_ref = 0, next_id = 1\<rparr>)"

definition initializeTodo_ref ::
  "store \<Rightarrow> TodoManagerRef \<Rightarrow> (string \<times> string) list \<Rightarrow> store \<times> TodoManagerRef" where
  "initializeTodo_ref h m entries =
     (let objects =
            map (\<lambda>(index, step).
                   StepObject \<lparr>id_step = toString (index + 1), title = fst step,
                               description = snd step, status = NOT_MADE\<rparr>)
                (enumerate 0 entries);
          h1 = h @ objects;
          (a, h2) = allocate h1 (ArrayObject [length h..<length h + length objects])
      in (h2, m\<lparr>steps_ref := a, next_id := length (elements h2 a) + 1\<rparr>))"

definition addStep_ref ::
  "store \<Rightarrow> TodoManagerRef \<Rightarrow> string \<Rightarrow> string \<Rightarrow> string \<times> store \<times> TodoManagerRef" where
  "addStep_ref h m t d =
     (let i = toString (next_id m);
          (r, h1) = allocate h (StepObject \<lparr>id_step = i, title = t, description = d,
                                             status = NOT_MADE\<rparr>);
          h2 = h1[steps_ref m := ArrayObject (elements h1 (steps_ref m) @ [r])]
      in (i, h2, m\<lparr>next_id := next_id m + 1\<rparr>))"

definition deleteStep_ref ::
  "store \<Rightarrow> TodoManagerRef \<Rightarrow> string \<Rightarrow> bool \<times> store \<times> TodoManagerRef" where
  "deleteStep_ref h m i =
     (let index = findIndex (has_id h i) (elements h (steps_ref m))
      in if index \<noteq> - 1
         then (True, h[steps_ref m := ArrayObject (splice1 index (elements h (steps_ref m)))], m)
         else (False, h, m))"

definition updateStatus_ref ::
  "store \<Rightarrow> TodoManagerRef \<Rightarrow> string \<Rightarrow> TodoStatus \<Rightarrow> bool \<times> store \<times> TodoManagerRef" where
  "updateStatus_ref h m i st =
     (case find (has_id h i) (elements h (steps_ref m)) of
        Some r \<Rightarrow>
          (case step_at h r of
             Some step \<Rightarrow> (True, h[r := StepObject (step\<lparr>status := st\<rparr>)], m)
           | None \<Rightarrow> (False, h, m))
      | None \<Rightarrow> (False, h, m))"

text \<open>\<^verbatim>\<open>[...this.steps]\<close>: a new array that holds the same references.\<close>

definition getSteps_ref :: "store \<Rightarrow> TodoManagerRef \<Rightarrow> ref \<times> store" where
  "getSteps_ref h m = allocate h (ArrayObject (elements h (steps_ref m)))"

definition clearTodo_ref :: "store \<Rightarrow> TodoManagerRef \<Rightarrow> store \<times> TodoManagerRef" where
  "clearTodo_ref h m =
     (let (a, h1) = allocate h (ArrayObject [])
      in (h1, m\<lparr>steps_ref := a, next_id := 1\<rparr>))"

fun apply_op_ref :: "store \<times> TodoManagerRef \<Rightarrow> op \<Rightarrow> store \<times> TodoManagerRef" where
  "apply_op_ref (h, m) (Initialize entries) = initializeTodo_ref h m entries"
| "apply_op_ref (h, m) (Add t d) = snd (addStep_ref h m t d)"
| "apply_op_ref (h, m) (Delete i) = snd (deleteStep_ref h m i)"
| "apply_op_ref (h, m) (UpdateStatus i st) = snd (updateStatus_ref h m i st)"
| "apply_op_ref (h, m) Clear = clearTodo_ref h m"

definition run_ref :: "op list \<Rightarrow> store \<times> TodoManagerRef" where
  "run_ref ops = foldl apply_op_ref new_TodoManagerRef ops"

text \<open>
  What the caller of \<^verbatim>\<open>getSteps\<close> can do to the value it got, the array at
  \<open>r\<close>. A change of the array itself (\<^verbatim>\<open>push\<close>, \<^verbatim>\<open>pop\<close>, \<^verbatim>\<open>splice\<close>,
  \<^verbatim>\<open>sort\<close>, \<^verbatim>\<open>r[i] = x\<close>, \<^verbatim>\<open>r.length = n\<close>) leaves it with some other
  list of references. An assignment \<^verbatim>\<open>r[i].field = v\<close> changes the object that
  the element at \<open>i\<close> refers to; on an index out of range it throws and changes nothing.
\<close>

datatype field = Field_id | Field_title | Field_description | Field_status

datatype caller_mutation =
    SetArray "ref list"
  | SetField nat field string

fun set_field :: "field \<Rightarrow> string \<Rightarrow> TodoStep \<Rightarrow> TodoStep" where
  "set_field Field_id v s = s\<lparr>id_step := v\<rparr>"
| "set_field Field_title v s = s\<lparr>title := v\<rparr>"
| "set_field Field_description v s = s\<lparr>description := v\<rparr>"
| "set_field Field_status v s = s\<lparr>status := v\<rparr>"

fun mutate :: "store \<Rightarrow> ref \<Rightarrow> caller_mutation \<Rightarrow> store" where
  "mutate h r (SetArray rs) = h[r := ArrayObject rs]"
| "mutate h r (SetField i f v) =
     (if i < length (elements h r)
      then (case step_at h (elements h r ! i) of
              Some s \<Rightarrow> h[elements h r ! i := StepObject (set_field f v s)]
            | None \<Rightarrow> h)
      else h)"

text \<open>What \<^verbatim>\<open>getSteps\<close> shows in a state of the store.\<close>

definition listed :: "store \<times> TodoManagerRef \<Rightarrow> TodoStep option list" where
  "listed s = (let (r, h1) = getSteps_ref (fst s) (snd s) in contents h1 r)"

text \<open>
  What a second \<^verbatim>\<open>getSteps\<close> shows after the caller of a first one has changed the
  value that was returned to it.
\<close>

definition listed_after :: "store \<times> TodoManagerRef \<Rightarrow> caller_mutation \<Rightarrow> TodoStep option list" where
  "listed_after s mu =
     (let (r, h1) = getSteps_ref (fst s) (snd s);
          h2 = mutate h1 r mu
      in listed (h2, snd s))"

text \<open>
  The array of the manager exists, its elements are different references, and each
  leads to a step object.
\<close>

definition valid_store :: "store \<times> TodoManagerRef \<Rightarrow> bool" where
  "valid_store s =
     (case lookup (fst s) (steps_ref (snd s)) of
        Some (ArrayObject rs) \<Rightarrow> distinct rs \<and> list_all (\<lambda>r. step_at (fst s) r \<noteq> None) rs
      | _ \<Rightarrow> False)"

text \<open>The manager of the first model that a state of the store stands for.\<close>

definition abstraction :: "store \<times> TodoManagerRef \<Rightarrow> TodoManager" where
  "abstraction s =
     \<lparr>steps = map the (contents (fst s) (steps_ref (snd s))), nextId = next_id (snd s)\<rparr>"

section \<open>Properties\<close>

subsection \<open>Decimal numerals, searching and splicing\<close>

lemma digit_val_digit_char: "d < 10 \<Longrightarrow> digit_val (digit_char d) = d"
proof -
  assume "d < 10"
  then consider "d = 0" | "d = 1" | "d = 2" | "d = 3" | "d = 4" | "d = 5" | "d = 6" | "d = 7" | "d = 8" | "d = 9"
    by atomize_elim arith
  then show ?thesis
    by cases (simp_all add: digit_val_def digit_char_def)
qed

lemma idValue_snoc: "idValue (s @ [c]) = 10 * idValue s + digit_val c"
  by (simp add: idValue_def)

lemma idValue_toString: "idValue (toString n) = n"
proof (induction n rule: toString.induct)
  case (1 n)
  show ?case
  proof (cases "n < 10")
    case True
    then show ?thesis
      by (simp add: toString.simps [of n] idValue_def digit_val_digit_char)
  next
    case False
    with 1 have "idValue (toString (n div 10)) = n div 10" by simp
    with False show ?thesis
      by (simp add: toString.simps [of n] idValue_snoc digit_val_digit_char)
  qed
qed

lemma toString_inj: "toString a = toString b \<Longrightarrow> a = b"
  by (metis idValue_toString)

lemma toString_nonempty: "toString n \<noteq> []"
  by (simp add: toString.simps [of n])

lemma inj_toString: "inj toString"
  by (rule injI) (rule toString_inj)


lemma findIndex_range: "findIndex P xs = - 1 \<or> (0 \<le> findIndex P xs \<and> findIndex P xs < int (length xs))"
  by (induction xs) (auto simp: Let_def)

lemma findIndex_none: "(findIndex P xs = - 1) = (\<forall>x \<in> set xs. \<not> P x)"
proof (induction xs)
  case Nil
  then show ?case by simp
next
  case (Cons a xs)
  from findIndex_range [of P xs] have "findIndex P xs + 1 \<noteq> - 1" by auto
  with Cons show ?case by (auto simp: Let_def)
qed

lemma findIndex_ge: "findIndex P xs \<noteq> - 1 \<Longrightarrow> 0 \<le> findIndex P xs"
  using findIndex_range [of P xs] by auto

lemma splice1_findIndex:
  "findIndex (\<lambda>x. f x = k) xs \<noteq> - 1 \<Longrightarrow> distinct (map f xs) \<Longrightarrow>
   splice1 (findIndex (\<lambda>x. f x = k) xs) xs = filter (\<lambda>x. f x \<noteq> k) xs"
proof (induction xs)
  case Nil
  then show ?case by simp
next
  case (Cons a xs)
  let ?i = "findIndex (\<lambda>x. f x = k) xs"
  show ?case
  proof (cases "f a = k")
    case True
    from Cons.prems(2) have "f a \<notin> f ` set xs" by simp
    with True have "\<forall>x \<in> set xs. f x \<noteq> k" by blast
    then have "filter (\<lambda>x. f x \<noteq> k) xs = xs" by (simp add: filter_id_conv)
    with True show ?thesis by (simp add: splice1_def)
  next
    case False
    with Cons.prems have ne: "?i \<noteq> - 1" by (auto simp: Let_def)
    with Cons have IH: "splice1 ?i xs = filter (\<lambda>x. f x \<noteq> k) xs" by simp
    from ne have ge: "0 \<le> ?i" by (rule findIndex_ge)
    then have "nat (?i + 1) = Suc (nat ?i)" by simp
    with False ne IH show ?thesis
      by (simp add: splice1_def Let_def)
  qed
qed

subsection \<open>The value model\<close>

lemma addStep_fst: "fst (addStep m t d) = toString (nextId m)"
  by (simp add: addStep_def Let_def)

lemma addStep_nextId: "nextId (snd (addStep m t d)) = nextId m + 1"
  by (simp add: addStep_def Let_def)

text \<open>
  C5. Whatever the store holds, \<^verbatim>\<open>clearTodo\<close> leaves it with an empty list, so that
  \<^verbatim>\<open>getSteps\<close> returns the empty sequence, and with the counter 1, so that an
  \<^verbatim>\<open>addStep\<close> right after it returns the id "1".
\<close>

theorem clearTodo_empty_and_restart:
  "steps (clearTodo m) = []
   \<and> getSteps (clearTodo m) = []
   \<and> nextId (clearTodo m) = 1
   \<and> fst (addStep (clearTodo m) t d) = ''1''"
  by (simp add: clearTodo_def getSteps_def addStep_fst toString.simps [of "Suc 0"] digit_char_def)

lemma initializeTodo_ids:
  "map id_step (steps (initializeTodo m entries)) = map toString [1..<length entries + 1]"
proof -
  have "map id_step (steps (initializeTodo m entries))
        = map (\<lambda>p. toString (Suc (fst p))) (enumerate 0 entries)"
    by (simp add: initializeTodo_def Let_def case_prod_unfold comp_def)
  also have "\<dots> = map (\<lambda>i. toString (Suc i)) (map fst (enumerate 0 entries))"
    by (simp only: map_map comp_def)
  also have "\<dots> = map (\<lambda>i. toString (Suc i)) [0..<length entries]"
    by simp
  also have "\<dots> = map toString (map Suc [0..<length entries])"
    by (simp only: map_map comp_def)
  also have "\<dots> = map toString [1..<length entries + 1]"
    by (simp add: map_Suc_upt)
  finally show ?thesis .
qed

lemma initializeTodo_title:
  "map title (steps (initializeTodo m entries)) = map fst entries"
proof -
  have "map title (steps (initializeTodo m entries)) = map (\<lambda>p. fst (snd p)) (enumerate 0 entries)"
    by (simp add: initializeTodo_def Let_def case_prod_unfold comp_def)
  also have "\<dots> = map fst (map snd (enumerate 0 entries))"
    by (simp only: map_map comp_def)
  finally show ?thesis by simp
qed

lemma initializeTodo_description:
  "map description (steps (initializeTodo m entries)) = map snd entries"
proof -
  have "map description (steps (initializeTodo m entries)) = map (\<lambda>p. snd (snd p)) (enumerate 0 entries)"
    by (simp add: initializeTodo_def Let_def case_prod_unfold comp_def)
  also have "\<dots> = map snd (map snd (enumerate 0 entries))"
    by (simp only: map_map comp_def)
  finally show ?thesis by simp
qed

lemma initializeTodo_status:
  "map status (steps (initializeTodo m entries)) = replicate (length entries) NOT_MADE"
  by (simp add: initializeTodo_def Let_def case_prod_unfold comp_def map_replicate_const)

lemma initializeTodo_length: "length (steps (initializeTodo m entries)) = length entries"
  by (simp add: initializeTodo_def Let_def)

lemma initializeTodo_nextId: "nextId (initializeTodo m entries) = length entries + 1"
  by (simp add: initializeTodo_def Let_def)

text \<open>
  C4. For every sequence of N entries, the empty one included, \<^verbatim>\<open>initializeTodo\<close>
  replaces the whole list (the result does not depend on the manager it is called on)
  by N records that carry the titles and descriptions of the entries in their order, the
  ids "1" to "N" and the status \<^verbatim>\<open>not_made\<close>; the counter becomes N + 1, so the
  next \<^verbatim>\<open>addStep\<close> returns the numeral of N + 1. The method is total: it has no
  failing branch.
\<close>

theorem initializeTodo_fresh_numbered:
  "initializeTodo m entries = initializeTodo m' entries
   \<and> length (steps (initializeTodo m entries)) = length entries
   \<and> map id_step (steps (initializeTodo m entries)) = map toString [1..<length entries + 1]
   \<and> map title (steps (initializeTodo m entries)) = map fst entries
   \<and> map description (steps (initializeTodo m entries)) = map snd entries
   \<and> map status (steps (initializeTodo m entries)) = replicate (length entries) NOT_MADE
   \<and> nextId (initializeTodo m entries) = length entries + 1
   \<and> fst (addStep (initializeTodo m entries) t d) = toString (length entries + 1)"
proof -
  have "initializeTodo m entries = initializeTodo m' entries"
    by (simp add: initializeTodo_def Let_def)
  then show ?thesis
    by (simp only: initializeTodo_ids initializeTodo_title initializeTodo_description
        initializeTodo_status initializeTodo_length
        initializeTodo_nextId addStep_fst simp_thms)
qed

text \<open>The scenario of two entries, then an \<^verbatim>\<open>addStep\<close>; and the empty sequence.\<close>

lemma initializeTodo_two:
  "steps (initializeTodo m [(''A'', ''a''), (''B'', ''b'')])
   = [\<lparr>id_step = ''1'', title = ''A'', description = ''a'', status = ''not_made''\<rparr>,
      \<lparr>id_step = ''2'', title = ''B'', description = ''b'', status = ''not_made''\<rparr>]
   \<and> fst (addStep (initializeTodo m [(''A'', ''a''), (''B'', ''b'')]) ''C'' ''c'') = ''3''
   \<and> steps (initializeTodo m []) = []"
  by (simp add: initializeTodo_def addStep_def Let_def enumerate_eq_zip upt_rec toString.simps digit_char_def NOT_MADE_def)

subsection \<open>The numbering invariant\<close>

lemma well_numbered_new: "well_numbered new_TodoManager"
  by (simp add: well_numbered_def new_TodoManager_def)

lemma well_numbered_clearTodo: "well_numbered (clearTodo m)"
  by (simp add: well_numbered_def clearTodo_def)

lemma well_numbered_initializeTodo: "well_numbered (initializeTodo m entries)"
proof -
  have "distinct (map toString [1..<length entries + 1])"
    by (simp add: distinct_map inj_on_def toString_inj)
  moreover have "list_all (\<lambda>i. toString (idValue i) = i \<and> idValue i < length entries + 1)
                   (map toString [1..<length entries + 1])"
    by (auto simp: list_all_iff idValue_toString)
  ultimately show ?thesis
    by (simp add: well_numbered_def initializeTodo_ids initializeTodo_nextId)
qed

lemma addStep_steps:
  "steps (snd (addStep m t d))
   = steps m @ [\<lparr>id_step = toString (nextId m), title = t, description = d, status = NOT_MADE\<rparr>]"
  by (simp add: addStep_def Let_def)

lemma well_numbered_fresh:
  "well_numbered m \<Longrightarrow> nextId m \<le> k \<Longrightarrow> toString k \<notin> set (map id_step (steps m))"
proof
  assume wn: "well_numbered m" and le: "nextId m \<le> k"
    and mem: "toString k \<in> set (map id_step (steps m))"
  from wn mem have "idValue (toString k) < nextId m"
    by (auto simp: well_numbered_def list_all_iff)
  with le show False by (simp add: idValue_toString)
qed

lemma well_numbered_addStep:
  assumes "well_numbered m"
  shows "well_numbered (snd (addStep m t d))"
proof -
  from assms have fresh: "toString (nextId m) \<notin> set (map id_step (steps m))"
    by (rule well_numbered_fresh) simp
  from assms have "list_all (\<lambda>i. toString (idValue i) = i \<and> idValue i < nextId m + 1)
                     (map id_step (steps m))"
    by (auto simp: well_numbered_def list_all_iff)
  with assms fresh show ?thesis
    by (simp add: well_numbered_def addStep_steps addStep_nextId idValue_toString)
qed

lemma deleteStep_nextId: "nextId (snd (deleteStep m i)) = nextId m"
  by (simp add: deleteStep_def Let_def)

lemma deleteStep_steps:
  "steps (snd (deleteStep m i)) = splice1 (findIndex (\<lambda>step. id_step step = i) (steps m)) (steps m)
   \<or> steps (snd (deleteStep m i)) = steps m"
  by (simp add: deleteStep_def Let_def)

lemma deleteStep_found:
  "distinct (map id_step (steps m)) \<Longrightarrow> i \<in> set (map id_step (steps m)) \<Longrightarrow>
   deleteStep m i = (True, m\<lparr>steps := filter (\<lambda>step. id_step step \<noteq> i) (steps m)\<rparr>)"
proof -
  assume d: "distinct (map id_step (steps m))" and mem: "i \<in> set (map id_step (steps m))"
  from mem have ne: "findIndex (\<lambda>step. id_step step = i) (steps m) \<noteq> - 1"
    by (auto simp: findIndex_none)
  from splice1_findIndex [OF ne d] ne show ?thesis
    by (simp add: deleteStep_def Let_def)
qed

lemma deleteStep_missing:
  "i \<notin> set (map id_step (steps m)) \<Longrightarrow> deleteStep m i = (False, m)"
proof -
  assume "i \<notin> set (map id_step (steps m))"
  then have "findIndex (\<lambda>step. id_step step = i) (steps m) = - 1"
    by (auto simp: findIndex_none)
  then show ?thesis by (simp add: deleteStep_def Let_def)
qed

lemma well_numbered_deleteStep:
  assumes "well_numbered m"
  shows "well_numbered (snd (deleteStep m i))"
proof (cases "i \<in> set (map id_step (steps m))")
  case True
  from assms have d: "distinct (map id_step (steps m))" by (simp add: well_numbered_def)
  from assms show ?thesis
    by (auto simp: deleteStep_found [OF d True] well_numbered_def distinct_map_filter list_all_iff)
next
  case False
  with assms show ?thesis by (simp add: deleteStep_missing)
qed

lemma assign_status_ids: "map id_step (assign_status i st xs) = map id_step xs"
  by (induction xs) auto

lemma updateStatus_ids: "map id_step (steps (snd (updateStatus m i st))) = map id_step (steps m)"
  by (simp add: updateStatus_def assign_status_ids split: option.splits)

lemma updateStatus_nextId: "nextId (snd (updateStatus m i st)) = nextId m"
  by (simp add: updateStatus_def split: option.splits)

lemma well_numbered_updateStatus:
  "well_numbered m \<Longrightarrow> well_numbered (snd (updateStatus m i st))"
  by (simp add: well_numbered_def updateStatus_ids updateStatus_nextId)

lemma well_numbered_apply_op: "well_numbered m \<Longrightarrow> well_numbered (apply_op m x)"
  by (cases x)
    (simp_all add: well_numbered_initializeTodo well_numbered_addStep well_numbered_deleteStep
      well_numbered_updateStatus well_numbered_clearTodo)

lemma well_numbered_foldl: "well_numbered m \<Longrightarrow> well_numbered (foldl apply_op m ops)"
  by (induction ops arbitrary: m) (simp_all add: well_numbered_apply_op)

lemma well_numbered_run: "well_numbered (run new_TodoManager ops)"
  by (simp add: run_def well_numbered_foldl well_numbered_new)

subsection \<open>Counter and assigned ids between two resets\<close>

lemma apply_op_nextId_mono: "\<not> is_reset x \<Longrightarrow> nextId m \<le> nextId (apply_op m x)"
  by (cases x) (simp_all add: addStep_nextId deleteStep_nextId updateStatus_nextId)

lemma reset_free_Cons: "reset_free (x # xs) = (\<not> is_reset x \<and> reset_free xs)"
  by (simp add: reset_free_def)

lemma counter_trace_lower:
  "reset_free ops \<Longrightarrow> k \<in> set (counter_trace m ops) \<Longrightarrow> nextId m \<le> k"
proof (induction ops arbitrary: m)
  case Nil
  then show ?case by simp
next
  case (Cons x xs)
  from Cons.prems(1) have nr: "\<not> is_reset x" and rf: "reset_free xs"
    by (simp_all add: reset_free_Cons)
  from Cons.prems(2) consider "k = nextId m" | "k \<in> set (counter_trace (apply_op m x) xs)"
    by auto
  then show ?case
  proof cases
    case 1
    then show ?thesis by simp
  next
    case 2
    with Cons.IH [OF rf] have "nextId (apply_op m x) \<le> k" by simp
    with apply_op_nextId_mono [OF nr, of m] show ?thesis by simp
  qed
qed

lemma counter_trace_sorted: "reset_free ops \<Longrightarrow> sorted (counter_trace m ops)"
proof (induction ops arbitrary: m)
  case Nil
  then show ?case by simp
next
  case (Cons x xs)
  from Cons.prems have nr: "\<not> is_reset x" and rf: "reset_free xs"
    by (simp_all add: reset_free_Cons)
  have "\<forall>k \<in> set (counter_trace (apply_op m x) xs). nextId m \<le> k"
    using counter_trace_lower [OF rf] apply_op_nextId_mono [OF nr, of m]
    by (meson order_trans)
  with Cons.IH [OF rf] show ?case by simp
qed

lemma run_Cons: "run m (x # xs) = run (apply_op m x) xs"
  by (simp add: run_def)

lemma run_append: "run m (xs @ ys) = run (run m xs) ys"
  by (simp add: run_def)

lemma run_nextId_mono: "reset_free ops \<Longrightarrow> nextId m \<le> nextId (run m ops)"
proof (induction ops arbitrary: m)
  case Nil
  then show ?case by (simp add: run_def)
next
  case (Cons x xs)
  from Cons.prems have nr: "\<not> is_reset x" and rf: "reset_free xs"
    by (simp_all add: reset_free_Cons)
  from Cons.IH [OF rf, of "apply_op m x"] apply_op_nextId_mono [OF nr, of m]
  show ?case by (simp add: run_Cons)
qed

lemma assigned_ids_upt:
  "reset_free ops \<Longrightarrow> assigned_ids m ops = map toString [nextId m..<nextId (run m ops)]"
proof (induction ops arbitrary: m)
  case Nil
  then show ?case by (simp add: run_def)
next
  case (Cons x xs)
  from Cons.prems have nr: "\<not> is_reset x" and rf: "reset_free xs"
    by (simp_all add: reset_free_Cons)
  note IH = Cons.IH [OF rf, of "apply_op m x"]
  show ?case
  proof (cases x)
    case (Add t d)
    have "nextId m < nextId (run (apply_op m x) xs)"
      using run_nextId_mono [OF rf, of "apply_op m x"] Add by (simp add: addStep_nextId)
    then have "[nextId m..<nextId (run (apply_op m x) xs)]
               = nextId m # [nextId m + 1..<nextId (run (apply_op m x) xs)]"
      by (simp add: upt_conv_Cons)
    with IH Add show ?thesis by (simp add: run_Cons addStep_fst addStep_nextId)
  next
    case (Delete i)
    with IH show ?thesis by (simp add: run_Cons deleteStep_nextId)
  next
    case (UpdateStatus i st)
    with IH show ?thesis by (simp add: run_Cons updateStatus_nextId)
  next
    case (Initialize entries)
    with nr show ?thesis by simp
  next
    case Clear
    with nr show ?thesis by simp
  qed
qed

lemma held_and_assigned_distinct:
  assumes wn: "well_numbered m" and rf: "reset_free ops"
  shows "distinct (map id_step (steps m) @ assigned_ids m ops)"
proof -
  have a: "assigned_ids m ops = map toString [nextId m..<nextId (run m ops)]"
    using rf by (rule assigned_ids_upt)
  have "distinct (map toString [nextId m..<nextId (run m ops)])"
    by (simp add: distinct_map inj_on_def toString_inj)
  moreover have "set (map id_step (steps m)) \<inter> set (map toString [nextId m..<nextId (run m ops)]) = {}"
  proof -
    have "toString k \<notin> set (map id_step (steps m))" if "nextId m \<le> k" for k
      using wn that by (rule well_numbered_fresh)
    then have "\<forall>k \<in> set [nextId m..<nextId (run m ops)]. toString k \<notin> set (map id_step (steps m))"
      by simp
    then show ?thesis unfolding set_map [of toString] by blast
  qed
  moreover from wn have "distinct (map id_step (steps m))"
    by (simp add: well_numbered_def)
  ultimately show ?thesis by (simp only: a distinct_append simp_thms)
qed

text \<open>
  C1, as the code has it. Whatever calls were made, the ids held in the list are
  pairwise distinct. Over a stretch of calls of \<^verbatim>\<open>addStep\<close>, \<^verbatim>\<open>deleteStep\<close>
  and \<^verbatim>\<open>updateStatus\<close> (no \<^verbatim>\<open>initializeTodo\<close>, no \<^verbatim>\<open>clearTodo\<close>) the
  counter never decreases, and the ids held when the stretch starts together with all
  the ids assigned during it are pairwise distinct: an id is not assigned again, also
  after its record was deleted.
\<close>

theorem ids_unique_between_resets:
  "distinct (map id_step (steps (run new_TodoManager ops1)))
   \<and> (reset_free ops2 \<longrightarrow>
        sorted (counter_trace (run new_TodoManager ops1) ops2)
        \<and> distinct (map id_step (steps (run new_TodoManager ops1))
                      @ assigned_ids (run new_TodoManager ops1) ops2))"
proof -
  have wn: "well_numbered (run new_TodoManager ops1)"
    by (rule well_numbered_run)
  then have "distinct (map id_step (steps (run new_TodoManager ops1)))"
    by (simp add: well_numbered_def)
  with counter_trace_sorted held_and_assigned_distinct [OF wn] show ?thesis
    by blast
qed

theorem ids_unique_between_resets_witness:
  "reset_free [Add ''C'' ''c'', Delete ''2'', Add ''D'' ''d'', UpdateStatus ''3'' MADE]
   \<and> sorted (counter_trace (run new_TodoManager [Initialize [(''A'', ''a''), (''B'', ''b'')], Delete ''1''])
                [Add ''C'' ''c'', Delete ''2'', Add ''D'' ''d'', UpdateStatus ''3'' MADE])
   \<and> distinct (map id_step (steps (run new_TodoManager [Initialize [(''A'', ''a''), (''B'', ''b'')], Delete ''1'']))
                 @ assigned_ids (run new_TodoManager [Initialize [(''A'', ''a''), (''B'', ''b'')], Delete ''1''])
                     [Add ''C'' ''c'', Delete ''2'', Add ''D'' ''d'', UpdateStatus ''3'' MADE])
   \<and> assigned_ids (run new_TodoManager [Initialize [(''A'', ''a''), (''B'', ''b'')], Delete ''1''])
        [Add ''C'' ''c'', Delete ''2'', Add ''D'' ''d'', UpdateStatus ''3'' MADE] = [''3'', ''4'']"
proof -
  have rf: "reset_free [Add ''C'' ''c'', Delete ''2'', Add ''D'' ''d'', UpdateStatus ''3'' MADE]"
    by (simp add: reset_free_def)
  have ids: "assigned_ids (run new_TodoManager [Initialize [(''A'', ''a''), (''B'', ''b'')], Delete ''1''])
        [Add ''C'' ''c'', Delete ''2'', Add ''D'' ''d'', UpdateStatus ''3'' MADE] = [''3'', ''4'']"
    by code_simp
  from rf ids
    ids_unique_between_resets [of "[Initialize [(''A'', ''a''), (''B'', ''b'')], Delete ''1'']"
      "[Add ''C'' ''c'', Delete ''2'', Add ''D'' ''d'', UpdateStatus ''3'' MADE]"]
  show ?thesis by blast
qed

text \<open>
  C1 as stated fails: \<^verbatim>\<open>clearTodo\<close> and \<^verbatim>\<open>initializeTodo\<close> set the counter back,
  and the next \<^verbatim>\<open>addStep\<close> hands out an id that was assigned before.
\<close>

theorem ids_reassigned_after_reset:
  "\<not> distinct (assigned_ids new_TodoManager [Add ''A'' ''a'', Clear, Add ''B'' ''b''])
   \<and> \<not> sorted (counter_trace new_TodoManager [Add ''A'' ''a'', Clear])
   \<and> \<not> distinct (assigned_ids new_TodoManager [Add ''A'' ''a'', Delete ''1'', Initialize [], Add ''B'' ''b''])
   \<and> \<not> sorted (counter_trace new_TodoManager [Add ''A'' ''a'', Initialize []])"
  by code_simp

subsection \<open>Consecutive additions\<close>

lemma addSteps_Cons:
  "fst (addSteps m ((t, d) # rest))
   = toString (nextId m) # fst (addSteps (snd (addStep m t d)) rest)"
  by (simp add: case_prod_unfold Let_def addStep_fst)

lemma addSteps_ids:
  "fst (addSteps m entries) = map toString [nextId m..<nextId m + length entries]"
proof (induction entries arbitrary: m)
  case Nil
  then show ?case by simp
next
  case (Cons e rest)
  obtain t d where e: "e = (t, d)" by (cases e)
  have "[nextId m..<nextId m + length (e # rest)]
        = nextId m # [Suc (nextId m)..<nextId m + length (e # rest)]"
    by (rule upt_conv_Cons) simp
  then have "[nextId m..<nextId m + length (e # rest)]
        = nextId m # [nextId m + 1..<nextId m + 1 + length rest]"
    by (simp del: upt_Suc)
  with Cons.IH [of "snd (addStep m t d)"] show ?case
    by (simp only: e addSteps_Cons addStep_nextId list.map)
qed

text \<open>
  C6. The ids that consecutive calls of \<^verbatim>\<open>addStep\<close> return are the decimal
  numerals of the counter's successive values \<open>n, n + 1, ...\<close>: they are pairwise
  distinct, and the numbers they denote are strictly increasing.
\<close>

theorem addSteps_ids_increasing:
  "fst (addSteps m entries) = map toString [nextId m..<nextId m + length entries]
   \<and> distinct (fst (addSteps m entries))
   \<and> sorted_wrt (<) (map idValue (fst (addSteps m entries)))"
proof -
  have "map idValue (map toString [nextId m..<nextId m + length entries])
        = [nextId m..<nextId m + length entries]"
    by (simp add: comp_def idValue_toString)
  moreover have "distinct (map toString [nextId m..<nextId m + length entries])"
    by (simp add: distinct_map inj_on_def toString_inj)
  ultimately show ?thesis
    by (simp only: addSteps_ids sorted_wrt_upt simp_thms)
qed

lemma addSteps_example:
  "fst (addSteps (run new_TodoManager [Initialize [(''A'', ''a'')], Delete ''1''])
          [(''B'', ''b''), (''C'', ''c''), (''D'', ''d'')]) = [''2'', ''3'', ''4'']"
  by code_simp

subsection \<open>Deletion\<close>

lemma filter_out_one:
  "distinct (map f xs) \<Longrightarrow> k \<in> set (map f xs) \<Longrightarrow>
   length (filter (\<lambda>x. f x \<noteq> k) xs) + 1 = length xs"
proof (induction xs)
  case Nil
  then show ?case by simp
next
  case (Cons a xs)
  show ?case
  proof (cases "f a = k")
    case True
    from Cons.prems(1) have "f a \<notin> f ` set xs" by simp
    with True have "\<forall>x \<in> set xs. f x \<noteq> k" by blast
    then have "filter (\<lambda>x. f x \<noteq> k) xs = xs" by (simp add: filter_id_conv)
    with True show ?thesis by simp
  next
    case False
    with Cons show ?thesis by auto
  qed
qed

text \<open>
  C8. In every state of the store that calls of its methods lead to:
  \<^verbatim>\<open>deleteStep\<close> with an id that a record carries returns true and leaves the
  list without that one record, the other records unchanged and in their order, and a
  second \<^verbatim>\<open>deleteStep\<close> with the same id then returns false; with an id that no
  record carries it returns false and changes nothing. The id is compared by equality of
  strings. The counter is never changed.
\<close>

theorem deleteStep_removes_exactly:
  "(i \<in> set (map id_step (steps (run new_TodoManager ops))) \<longrightarrow>
      fst (deleteStep (run new_TodoManager ops) i)
      \<and> steps (snd (deleteStep (run new_TodoManager ops) i))
          = filter (\<lambda>step. id_step step \<noteq> i) (steps (run new_TodoManager ops))
      \<and> length (steps (snd (deleteStep (run new_TodoManager ops) i))) + 1
          = length (steps (run new_TodoManager ops))
      \<and> \<not> fst (deleteStep (snd (deleteStep (run new_TodoManager ops) i)) i))
   \<and> (i \<notin> set (map id_step (steps (run new_TodoManager ops))) \<longrightarrow>
        deleteStep (run new_TodoManager ops) i = (False, run new_TodoManager ops))
   \<and> nextId (snd (deleteStep (run new_TodoManager ops) i)) = nextId (run new_TodoManager ops)"
proof -
  let ?m = "run new_TodoManager ops"
  have d: "distinct (map id_step (steps ?m))"
    using well_numbered_run [of ops] by (simp add: well_numbered_def)
  have found: "fst (deleteStep ?m i)
      \<and> steps (snd (deleteStep ?m i)) = filter (\<lambda>step. id_step step \<noteq> i) (steps ?m)
      \<and> length (steps (snd (deleteStep ?m i))) + 1 = length (steps ?m)
      \<and> \<not> fst (deleteStep (snd (deleteStep ?m i)) i)"
    if mem: "i \<in> set (map id_step (steps ?m))"
  proof -
    note del = deleteStep_found [OF d mem]
    have gone: "i \<notin> set (map id_step (steps (snd (deleteStep ?m i))))"
      by (auto simp: del)
    from d mem have len: "length (filter (\<lambda>step. id_step step \<noteq> i) (steps ?m)) + 1 = length (steps ?m)"
      by (rule filter_out_one)
    from deleteStep_missing [OF gone] have "\<not> fst (deleteStep (snd (deleteStep ?m i)) i)"
      by simp
    with len show ?thesis
      by (simp add: del)
  qed
  have missing: "deleteStep ?m i = (False, ?m)" if "i \<notin> set (map id_step (steps ?m))"
    using that by (rule deleteStep_missing)
  have "nextId (snd (deleteStep ?m i)) = nextId ?m"
    by (rule deleteStep_nextId)
  with found missing show ?thesis
    by blast
qed

theorem deleteStep_removes_exactly_witness:
  "''1'' \<in> set (map id_step (steps (run new_TodoManager [Initialize [(''A'', ''a''), (''B'', ''b'')]])))
   \<and> ''7'' \<notin> set (map id_step (steps (run new_TodoManager [Initialize [(''A'', ''a''), (''B'', ''b'')]])))
   \<and> fst (deleteStep (run new_TodoManager [Initialize [(''A'', ''a''), (''B'', ''b'')]]) ''1'')
   \<and> steps (snd (deleteStep (run new_TodoManager [Initialize [(''A'', ''a''), (''B'', ''b'')]]) ''1''))
       = [\<lparr>id_step = ''2'', title = ''B'', description = ''b'', status = ''not_made''\<rparr>]
   \<and> \<not> fst (deleteStep (snd (deleteStep (run new_TodoManager [Initialize [(''A'', ''a''), (''B'', ''b'')]]) ''1'')) ''1'')
   \<and> deleteStep (run new_TodoManager [Initialize [(''A'', ''a''), (''B'', ''b'')]]) ''7''
       = (False, run new_TodoManager [Initialize [(''A'', ''a''), (''B'', ''b'')]])"
proof -
  let ?m = "run new_TodoManager [Initialize [(''A'', ''a''), (''B'', ''b'')]]"
  have st: "steps ?m
     = [\<lparr>id_step = ''1'', title = ''A'', description = ''a'', status = ''not_made''\<rparr>,
        \<lparr>id_step = ''2'', title = ''B'', description = ''b'', status = ''not_made''\<rparr>]"
    by code_simp
  have h1: "''1'' \<in> set (map id_step (steps ?m))" by (simp add: st)
  have h2: "''7'' \<notin> set (map id_step (steps ?m))" by (simp add: st)
  from h1 h2 deleteStep_removes_exactly [of "''1''" "[Initialize [(''A'', ''a''), (''B'', ''b'')]]"]
    deleteStep_removes_exactly [of "''7''" "[Initialize [(''A'', ''a''), (''B'', ''b'')]]"]
  show ?thesis by (simp add: st)
qed

subsection \<open>Status updates\<close>

lemma assign_status_map:
  "distinct (map id_step xs) \<Longrightarrow>
   assign_status i st xs = map (\<lambda>step. if id_step step = i then step\<lparr>status := st\<rparr> else step) xs"
proof (induction xs)
  case Nil
  then show ?case by simp
next
  case (Cons a xs)
  show ?case
  proof (cases "id_step a = i")
    case True
    from Cons.prems have "id_step a \<notin> id_step ` set xs" by simp
    with True have "\<forall>x \<in> set xs. id_step x \<noteq> i" by blast
    then have "map (\<lambda>step. if id_step step = i then step\<lparr>status := st\<rparr> else step) xs = xs"
      by (simp add: map_idI)
    with True show ?thesis by simp
  next
    case False
    with Cons show ?thesis by simp
  qed
qed

lemma find_id_Some:
  "i \<in> set (map id_step xs) \<Longrightarrow> \<exists>step. find (\<lambda>step. id_step step = i) xs = Some step"
  by (induction xs) auto

lemma updateStatus_found:
  assumes "distinct (map id_step (steps m))" and "i \<in> set (map id_step (steps m))"
  shows "updateStatus m i st
         = (True, m\<lparr>steps := map (\<lambda>step. if id_step step = i then step\<lparr>status := st\<rparr> else step)
                              (steps m)\<rparr>)"
proof -
  from find_id_Some [OF assms(2)] obtain step
    where "find (\<lambda>step. id_step step = i) (steps m) = Some step" by blast
  then show ?thesis
    by (simp add: updateStatus_def assign_status_map [OF assms(1)])
qed

lemma updateStatus_missing:
  "i \<notin> set (map id_step (steps m)) \<Longrightarrow> updateStatus m i st = (False, m)"
proof -
  assume "i \<notin> set (map id_step (steps m))"
  then have "find (\<lambda>step. id_step step = i) (steps m) = None"
    by (auto simp: find_None_iff)
  then show ?thesis by (simp add: updateStatus_def)
qed

lemma well_numbered_id_nonempty:
  "well_numbered m \<Longrightarrow> i \<in> set (map id_step (steps m)) \<Longrightarrow> i \<noteq> []"
proof -
  assume "well_numbered m" and "i \<in> set (map id_step (steps m))"
  then have "toString (idValue i) = i"
    by (auto simp: well_numbered_def list_all_iff)
  with toString_nonempty [of "idValue i"] show ?thesis by simp
qed

text \<open>
  C10. In every state of the store that calls of its methods lead to, the action
  \<^verbatim>\<open>update_status\<close> with the id of a record of the list and any non-empty status
  string, one of the three enum values or not, reports success, and the record with that
  id gets exactly that string as its status; nothing else changes. The string is never
  compared with the enum's values.
\<close>

theorem execute_update_status_unvalidated:
  "params_action params = ''update_status'' \<Longrightarrow>
   params_step_id params = Some i \<Longrightarrow>
   params_status params = Some st \<Longrightarrow>
   i \<in> set (map id_step (steps (run new_TodoManager ops))) \<Longrightarrow>
   st \<noteq> [] \<Longrightarrow>
   execute (run new_TodoManager ops) params
   = (\<lparr>llmContent =
         \<lparr>json_success = True,
          json_message = Some (''Updated step '' @ i @ '' status to '' @ st),
          json_error = None, json_steps = None, json_step_id = None, json_display = None\<rparr>,
       returnDisplay = ''Updated step '' @ i @ '' status to '' @ st\<rparr>,
      (run new_TodoManager ops)
        \<lparr>steps := map (\<lambda>step. if id_step step = i then step\<lparr>status := st\<rparr> else step)
                      (steps (run new_TodoManager ops))\<rparr>)"
proof -
  let ?m = "run new_TodoManager ops"
  assume a: "params_action params = ''update_status''"
    and s: "params_step_id params = Some i"
    and t: "params_status params = Some st"
    and mem: "i \<in> set (map id_step (steps ?m))"
    and ne: "st \<noteq> []"
  have wn: "well_numbered ?m" by (rule well_numbered_run)
  then have d: "distinct (map id_step (steps ?m))" by (simp add: well_numbered_def)
  from wn mem have ine: "i \<noteq> []" by (rule well_numbered_id_nonempty)
  note upd = updateStatus_found [OF d mem, of st]
  from a s t ine ne show ?thesis
    by (simp add: execute_def execute_try_def falsy_def upd succeeded_def no_content_def)
qed

theorem execute_update_status_unvalidated_witness:
  "''2'' \<in> set (map id_step (steps (run new_TodoManager [Initialize [(''A'', ''a''), (''B'', ''b'')]])))
   \<and> ''bogus'' \<notin> {NOT_MADE, IN_PROGRESS, MADE}
   \<and> execute (run new_TodoManager [Initialize [(''A'', ''a''), (''B'', ''b'')]])
        \<lparr>params_action = ''update_status'', params_steps = StepsUndefined,
         params_step_id = Some ''2'', params_title = None, params_description = None,
         params_status = Some ''bogus''\<rparr>
      = (\<lparr>llmContent =
            \<lparr>json_success = True,
             json_message = Some ''Updated step 2 status to bogus'',
             json_error = None, json_steps = None, json_step_id = None, json_display = None\<rparr>,
          returnDisplay = ''Updated step 2 status to bogus''\<rparr>,
         \<lparr>steps = [\<lparr>id_step = ''1'', title = ''A'', description = ''a'', status = ''not_made''\<rparr>,
                   \<lparr>id_step = ''2'', title = ''B'', description = ''b'', status = ''bogus''\<rparr>],
          nextId = 3\<rparr>)"
proof -
  let ?m = "run new_TodoManager [Initialize [(''A'', ''a''), (''B'', ''b'')]]"
  let ?p = "\<lparr>params_action = ''update_status'', params_steps = StepsUndefined,
         params_step_id = Some ''2'', params_title = None, params_description = None,
         params_status = Some ''bogus''\<rparr>"
  have st: "?m
     = \<lparr>steps = [\<lparr>id_step = ''1'', title = ''A'', description = ''a'', status = ''not_made''\<rparr>,
                 \<lparr>id_step = ''2'', title = ''B'', description = ''b'', status = ''not_made''\<rparr>],
        nextId = 3\<rparr>"
    by code_simp
  have mem: "''2'' \<in> set (map id_step (steps ?m))" by (simp add: st)
  have out: "''bogus'' \<notin> {NOT_MADE, IN_PROGRESS, MADE}"
    by (simp add: NOT_MADE_def IN_PROGRESS_def MADE_def)
  have "execute ?m ?p = (\<lparr>llmContent =
         \<lparr>json_success = True,
          json_message = Some (''Updated step '' @ ''2'' @ '' status to '' @ ''bogus''),
          json_error = None, json_steps = None, json_step_id = None, json_display = None\<rparr>,
       returnDisplay = ''Updated step '' @ ''2'' @ '' status to '' @ ''bogus''\<rparr>,
      ?m\<lparr>steps := map (\<lambda>step. if id_step step = ''2'' then step\<lparr>status := ''bogus''\<rparr> else step)
                      (steps ?m)\<rparr>)"
    by (rule execute_update_status_unvalidated [OF _ _ _ mem]) simp_all
  with mem out show ?thesis by (simp add: st)
qed

subsection \<open>The tool's entry point\<close>








lemma initializeTodo_elements_entries:
  "initializeTodo_elements m (map Some entries) = Inr (initializeTodo m entries)"
proof -
  have "those (map Some entries) = Some entries"
    by (induction entries) simp_all
  then show ?thesis by (simp add: initializeTodo_elements_def)
qed




text \<open>
  C2, as the code has it. The action \<^verbatim>\<open>add\<close> fails exactly when the title or the
  description is missing or is the empty string: then it returns the failure result and
  the store is unchanged. When both are present and non-empty it appends a step with the
  status \<^verbatim>\<open>not_made\<close> and returns success with the id just assigned.
\<close>

theorem execute_add_needs_title_and_description:
  "params_action params = ''add'' \<Longrightarrow>
   ((params_title params = None \<or> params_title params = Some [] \<or>
     params_description params = None \<or> params_description params = Some []) \<longrightarrow>
      execute m params = (failure ''Title and description required for add action'', m))
   \<and> (\<forall>t d. params_title params = Some t \<and> t \<noteq> [] \<and>
             params_description params = Some d \<and> d \<noteq> [] \<longrightarrow>
        execute m params
        = (\<lparr>llmContent =
              \<lparr>json_success = True, json_message = Some (''Added step: '' @ t),
               json_error = None, json_steps = None,
               json_step_id = Some (toString (nextId m)), json_display = None\<rparr>,
            returnDisplay = ''Added step: '' @ t\<rparr>,
           m\<lparr>steps := steps m @ [\<lparr>id_step = toString (nextId m), title = t,
                                   description = d, status = NOT_MADE\<rparr>],
             nextId := nextId m + 1\<rparr>))"
  by (auto simp: execute_def execute_try_def falsy_def addStep_def Let_def no_content_def)

theorem execute_add_needs_title_and_description_witness:
  "execute new_TodoManager
     \<lparr>params_action = ''add'', params_steps = StepsUndefined, params_step_id = None,
      params_title = None, params_description = Some ''a'', params_status = None\<rparr>
   = (failure ''Title and description required for add action'', new_TodoManager)
   \<and> execute new_TodoManager
     \<lparr>params_action = ''add'', params_steps = StepsUndefined, params_step_id = None,
      params_title = Some ''A'', params_description = Some ''a'', params_status = None\<rparr>
   = (\<lparr>llmContent =
              \<lparr>json_success = True, json_message = Some ''Added step: A'',
               json_error = None, json_steps = None,
               json_step_id = Some ''1'', json_display = None\<rparr>,
            returnDisplay = ''Added step: A''\<rparr>,
      \<lparr>steps = [\<lparr>id_step = ''1'', title = ''A'', description = ''a'', status = ''not_made''\<rparr>],
       nextId = 2\<rparr>)"
proof -
  let ?p1 = "\<lparr>params_action = ''add'', params_steps = StepsUndefined, params_step_id = None,
      params_title = None, params_description = Some ''a'', params_status = None\<rparr>"
  let ?p2 = "\<lparr>params_action = ''add'', params_steps = StepsUndefined, params_step_id = None,
      params_title = Some ''A'', params_description = Some ''a'', params_status = None\<rparr>"
  have one: "toString (Suc 0) = ''1''"
    by (simp add: toString.simps [of "Suc 0"] digit_char_def)
  from execute_add_needs_title_and_description [of ?p1 new_TodoManager]
  have a: "execute new_TodoManager ?p1
           = (failure ''Title and description required for add action'', new_TodoManager)"
    by simp
  from execute_add_needs_title_and_description [of ?p2 new_TodoManager]
  have b: "execute new_TodoManager ?p2
   = (\<lparr>llmContent =
              \<lparr>json_success = True, json_message = Some ''Added step: A'',
               json_error = None, json_steps = None,
               json_step_id = Some ''1'', json_display = None\<rparr>,
            returnDisplay = ''Added step: A''\<rparr>,
      \<lparr>steps = [\<lparr>id_step = ''1'', title = ''A'', description = ''a'', status = ''not_made''\<rparr>],
       nextId = 2\<rparr>)"
    by (simp add: new_TodoManager_def one NOT_MADE_def)
  from a b show ?thesis by (rule conjI)
qed

text \<open>
  C2 as stated fails: a request whose title is present and is the empty string is
  refused, and the store is left as it was.
\<close>

theorem execute_add_refuses_empty_title:
  "params_title
     \<lparr>params_action = ''add'', params_steps = StepsUndefined, params_step_id = None,
      params_title = Some '''', params_description = Some ''a'', params_status = None\<rparr> \<noteq> None
   \<and> params_description
     \<lparr>params_action = ''add'', params_steps = StepsUndefined, params_step_id = None,
      params_title = Some '''', params_description = Some ''a'', params_status = None\<rparr> \<noteq> None
   \<and> execute new_TodoManager
     \<lparr>params_action = ''add'', params_steps = StepsUndefined, params_step_id = None,
      params_title = Some '''', params_description = Some ''a'', params_status = None\<rparr>
   = (failure ''Title and description required for add action'', new_TodoManager)
   \<and> \<not> json_success (llmContent (fst (execute new_TodoManager
     \<lparr>params_action = ''add'', params_steps = StepsUndefined, params_step_id = None,
      params_title = Some '''', params_description = Some ''a'', params_status = None\<rparr>)))"
  by (simp add: execute_def execute_try_def falsy_def failure_def no_content_def)



subsection \<open>The textual rendering\<close>

lemma lines_of_single: "CHR 0x0A \<notin> set l \<Longrightarrow> lines_of l = [l]"
  by (induction l) auto

lemma lines_of_append:
  "CHR 0x0A \<notin> set l \<Longrightarrow> lines_of (l @ CHR 0x0A # rest) = l # lines_of rest"
  by (induction l) auto

lemma lines_of_join_Cons:
  "\<forall>l \<in> set (x # xs). CHR 0x0A \<notin> set l \<Longrightarrow> lines_of (join [CHR 0x0A] (x # xs)) = x # xs"
proof (induction xs arbitrary: x)
  case Nil
  then show ?case by (simp add: lines_of_single)
next
  case (Cons y ys)
  from Cons.prems have "lines_of (join [CHR 0x0A] (y # ys)) = y # ys"
    by (intro Cons.IH) simp
  with Cons.prems show ?case by (simp add: lines_of_append)
qed

lemma lines_of_join:
  "ls \<noteq> [] \<Longrightarrow> \<forall>l \<in> set ls. CHR 0x0A \<notin> set l \<Longrightarrow> lines_of (join [CHR 0x0A] ls) = ls"
  by (cases ls) (simp_all only: lines_of_join_Cons list.distinct simp_thms)

lemma getStatusIcon_cases:
  "getStatusIcon st = icon_not_made \<or> getStatusIcon st = icon_in_progress \<or> getStatusIcon st = icon_made"
  by (simp add: getStatusIcon_def)

lemma getStatusIcon_no_line_feed: "CHR 0x0A \<notin> set (getStatusIcon st)"
  using getStatusIcon_cases [of st]
  by (auto simp: icon_not_made_def icon_in_progress_def icon_made_def)

lemma step_line_no_line_feed: "CHR 0x0A \<notin> set (title step) \<Longrightarrow> CHR 0x0A \<notin> set (step_line step)"
  by (simp add: step_line_def getStatusIcon_no_line_feed)

lemma step_line_unfold:
  "map step_line xs = map (\<lambda>step. getStatusIcon (status step) @ '' '' @ title step) xs"
  by (simp add: step_line_def)

text \<open>
  C9, as the code has it. In every state of the store in which no title contains a line
  feed, the rendering of a non-empty list has exactly one line per step, in the order of
  the list; a line is the glyph of the step's status, a space and the step's title. The
  empty list gives the empty string. Each of the three status values has its own glyph,
  the three glyphs differ, and every status string gets one of the three. In every
  state, whatever the titles are, the rendering is these texts of the steps joined by
  line feeds; titles are not escaped.
\<close>

theorem getStepsForDisplay_one_line_per_step:
  "getStepsForDisplay m
   = join [CHR 0x0A] (map (\<lambda>step. getStatusIcon (status step) @ '' '' @ title step) (steps m))
   \<and> (steps m = [] \<longrightarrow> getStepsForDisplay m = [])
   \<and> (steps m \<noteq> [] \<and> (\<forall>step \<in> set (steps m). CHR 0x0A \<notin> set (title step)) \<longrightarrow>
        lines_of (getStepsForDisplay m)
        = map (\<lambda>step. getStatusIcon (status step) @ '' '' @ title step) (steps m))
   \<and> getStatusIcon NOT_MADE = icon_not_made
   \<and> getStatusIcon IN_PROGRESS = icon_in_progress
   \<and> getStatusIcon MADE = icon_made
   \<and> distinct [icon_not_made, icon_in_progress, icon_made]
   \<and> getStatusIcon st \<in> {icon_not_made, icon_in_progress, icon_made}"
proof -
  have whole: "getStepsForDisplay m = join [CHR 0x0A] (map step_line (steps m))"
    by (simp add: getStepsForDisplay_def)
  have empty: "getStepsForDisplay m = []" if "steps m = []"
    using that by (simp add: getStepsForDisplay_def)
  have cut: "lines_of (getStepsForDisplay m) = map step_line (steps m)"
    if "steps m \<noteq> []" and "\<forall>step \<in> set (steps m). CHR 0x0A \<notin> set (title step)"
  proof -
    from that(2) have "\<forall>l \<in> set (map step_line (steps m)). CHR 0x0A \<notin> set l"
      by (auto simp: step_line_no_line_feed)
    with that(1) show ?thesis
      by (simp only: whole) (rule lines_of_join, simp_all)
  qed
  have icons: "getStatusIcon NOT_MADE = icon_not_made" "getStatusIcon IN_PROGRESS = icon_in_progress"
    "getStatusIcon MADE = icon_made"
    by (simp_all add: getStatusIcon_def NOT_MADE_def IN_PROGRESS_def MADE_def)
  have differ: "distinct [icon_not_made, icon_in_progress, icon_made]"
    by (simp add: icon_not_made_def icon_in_progress_def icon_made_def)
  have among: "getStatusIcon st \<in> {icon_not_made, icon_in_progress, icon_made}"
    using getStatusIcon_cases [of st] by blast
  from whole empty cut icons differ among show ?thesis
    unfolding step_line_unfold by blast
qed

theorem getStepsForDisplay_one_line_per_step_witness:
  "steps (run new_TodoManager [Initialize [(''A'', ''a''), (''B'', ''b'')], UpdateStatus ''2'' IN_PROGRESS]) \<noteq> []
   \<and> lines_of (getStepsForDisplay
        (run new_TodoManager [Initialize [(''A'', ''a''), (''B'', ''b'')], UpdateStatus ''2'' IN_PROGRESS]))
      = [icon_not_made @ '' A'', icon_in_progress @ '' B'']
   \<and> steps (run new_TodoManager [Clear]) = []
   \<and> getStepsForDisplay (run new_TodoManager [Clear]) = []"
proof -
  let ?m = "run new_TodoManager [Initialize [(''A'', ''a''), (''B'', ''b'')], UpdateStatus ''2'' IN_PROGRESS]"
  have st: "steps ?m
     = [\<lparr>id_step = ''1'', title = ''A'', description = ''a'', status = NOT_MADE\<rparr>,
        \<lparr>id_step = ''2'', title = ''B'', description = ''b'', status = IN_PROGRESS\<rparr>]"
    by code_simp
  have e: "steps (run new_TodoManager [Clear]) = []"
    by code_simp
  have ne: "steps ?m \<noteq> []" by (simp add: st)
  have nl: "\<forall>step \<in> set (steps ?m). CHR 0x0A \<notin> set (title step)" by (simp add: st)
  from ne nl getStepsForDisplay_one_line_per_step [of ?m]
  have "lines_of (getStepsForDisplay ?m)
        = map (\<lambda>step. getStatusIcon (status step) @ '' '' @ title step) (steps ?m)"
    by blast
  moreover from getStepsForDisplay_one_line_per_step [of ?m]
  have "getStatusIcon NOT_MADE = icon_not_made" "getStatusIcon IN_PROGRESS = icon_in_progress"
    by blast+
  ultimately have l: "lines_of (getStepsForDisplay ?m) = [icon_not_made @ '' A'', icon_in_progress @ '' B'']"
    by (simp add: st)
  from e getStepsForDisplay_one_line_per_step [of "run new_TodoManager [Clear]"]
  have "getStepsForDisplay (run new_TodoManager [Clear]) = []" by blast
  with ne l e show ?thesis by blast
qed

text \<open>
  C9 as stated fails: a title is put into the rendering as it is, so a step whose title
  contains a line feed takes two lines, and the second one has no glyph.
\<close>

theorem getStepsForDisplay_title_with_line_feed:
  "steps (run new_TodoManager [Add [CHR ''x'', CHR 0x0A, CHR ''y''] ''a''])
   = [\<lparr>id_step = ''1'', title = [CHR ''x'', CHR 0x0A, CHR ''y''], description = ''a'',
        status = ''not_made''\<rparr>]
   \<and> lines_of (getStepsForDisplay (run new_TodoManager [Add [CHR ''x'', CHR 0x0A, CHR ''y''] ''a'']))
     = [icon_not_made @ '' x'', ''y'']
   \<and> length (lines_of (getStepsForDisplay
                 (run new_TodoManager [Add [CHR ''x'', CHR 0x0A, CHR ''y''] ''a''])))
     \<noteq> length (steps (run new_TodoManager [Add [CHR ''x'', CHR 0x0A, CHR ''y''] ''a'']))"
  by code_simp

subsection \<open>The store: cells, validity\<close>

lemma lookup_append:
  "lookup (h @ cs) r = (if r < length h then lookup h r else lookup cs (r - length h))"
  by (auto simp: lookup_def nth_append)

lemma lookup_update:
  "lookup (h[a := c]) r = (if r = a \<and> a < length h then Some c else lookup h r)"
  by (auto simp: lookup_def)

lemma step_at_append_old: "r < length h \<Longrightarrow> step_at (h @ cs) r = step_at h r"
  by (simp add: step_at_def lookup_append)

lemma elements_append_old: "r < length h \<Longrightarrow> elements (h @ cs) r = elements h r"
  by (simp add: elements_def lookup_append)

lemma step_at_Some_less: "step_at h r = Some s \<Longrightarrow> r < length h"
  by (simp add: step_at_def lookup_def split: if_splits)

lemma step_at_not_None_less: "step_at h r \<noteq> None \<Longrightarrow> r < length h"
  by (auto dest: step_at_Some_less)

lemma valid_store_iff:
  "valid_store (h, m) =
     (steps_ref m < length h
      \<and> h ! steps_ref m = ArrayObject (elements h (steps_ref m))
      \<and> distinct (elements h (steps_ref m))
      \<and> (\<forall>r \<in> set (elements h (steps_ref m)). step_at h r \<noteq> None))"
  by (auto simp: valid_store_def elements_def lookup_def list_all_iff split: cell.splits)

lemma valid_store_element:
  assumes "valid_store (h, m)" and "r \<in> set (elements h (steps_ref m))"
  shows "r < length h" and "r \<noteq> steps_ref m" and "\<exists>s. step_at h r = Some s"
proof -
  from assms have ne: "step_at h r \<noteq> None" by (simp add: valid_store_iff)
  then show "r < length h" by (rule step_at_not_None_less)
  from ne show "\<exists>s. step_at h r = Some s" by auto
  from assms(1) have "h ! steps_ref m = ArrayObject (elements h (steps_ref m))"
    and "steps_ref m < length h" by (simp_all add: valid_store_iff)
  then have "step_at h (steps_ref m) = None"
    by (simp add: step_at_def lookup_def)
  with ne show "r \<noteq> steps_ref m" by auto
qed

lemma contents_append_old:
  assumes "valid_store (h, m)"
  shows "contents (h @ cs) (steps_ref m) = contents h (steps_ref m)"
proof -
  from assms have sr: "steps_ref m < length h" by (simp add: valid_store_iff)
  have "map (step_at (h @ cs)) (elements h (steps_ref m)) = map (step_at h) (elements h (steps_ref m))"
    using valid_store_element(1) [OF assms] by (simp add: step_at_append_old)
  with sr show ?thesis by (simp add: contents_def elements_append_old)
qed

lemma listed_append:
  assumes "valid_store (h, m)"
  shows "listed (h @ cs, m) = contents h (steps_ref m)"
proof -
  from assms have sr: "steps_ref m < length h" by (simp add: valid_store_iff)
  let ?rs = "elements h (steps_ref m)"
  let ?h1 = "(h @ cs) @ [ArrayObject ?rs]"
  have el: "elements ?h1 (length (h @ cs)) = ?rs"
    by (simp add: elements_def lookup_def nth_append)
  have "step_at ?h1 r = step_at h r" if "r \<in> set ?rs" for r
    using valid_store_element(1) [OF assms that]
    by (simp add: step_at_append_old del: append_assoc)
  then have "map (step_at ?h1) ?rs = map (step_at h) ?rs" by simp
  with sr el show ?thesis
    by (simp add: listed_def getSteps_ref_def allocate_def contents_def elements_append_old
        del: append_assoc)
qed

lemma listed_contents: "valid_store (h, m) \<Longrightarrow> listed (h, m) = contents h (steps_ref m)"
  using listed_append [of h m "[]"] by simp

lemma listed_after_SetArray:
  assumes "valid_store (h, m)"
  shows "listed_after (h, m) (SetArray rs) = listed (h, m)"
proof -
  have "(h @ [ArrayObject (elements h (steps_ref m))])[length h := ArrayObject rs] = h @ [ArrayObject rs]"
    by simp
  then have "listed_after (h, m) (SetArray rs) = listed (h @ [ArrayObject rs], m)"
    by (simp add: listed_after_def getSteps_ref_def allocate_def)
  with assms show ?thesis by (simp add: listed_append listed_contents)
qed

subsection \<open>The methods on the store keep it valid and agree with the value model\<close>

lemma valid_store_new: "valid_store new_TodoManagerRef"
  by (simp add: valid_store_def new_TodoManagerRef_def lookup_def)

lemma abstraction_new: "abstraction new_TodoManagerRef = new_TodoManager"
  by (simp add: abstraction_def new_TodoManagerRef_def new_TodoManager_def contents_def
      elements_def lookup_def)

lemma clearTodo_ref_valid: "valid_store (clearTodo_ref h m)"
  by (simp add: clearTodo_ref_def allocate_def valid_store_def lookup_def)

lemma clearTodo_ref_abstraction:
  "abstraction (clearTodo_ref h m) = clearTodo (abstraction (h, m))"
  by (simp add: clearTodo_ref_def allocate_def abstraction_def clearTodo_def contents_def
      elements_def lookup_def)

lemma fresh_block:
  fixes h :: store and ss :: "TodoStep list"
  defines "h2 \<equiv> (h @ map StepObject ss) @ [ArrayObject [length h..<length h + length ss]]"
  shows "lookup h2 (length h + length ss) = Some (ArrayObject [length h..<length h + length ss])"
    and "contents h2 (length h + length ss) = map Some ss"
    and "list_all (\<lambda>r. step_at h2 r \<noteq> None) [length h..<length h + length ss]"
proof -
  show a: "lookup h2 (length h + length ss) = Some (ArrayObject [length h..<length h + length ss])"
    by (simp add: h2_def lookup_def nth_append)
  have st: "step_at h2 (length h + k) = Some (ss ! k)" if "k < length ss" for k
    using that by (simp add: h2_def step_at_def lookup_def nth_append)
  then have "map (step_at h2) [length h..<length h + length ss] = map Some ss"
    by (intro nth_equalityI) simp_all
  with a show "contents h2 (length h + length ss) = map Some ss"
    by (simp add: contents_def elements_def)
  have "step_at h2 r \<noteq> None" if "length h \<le> r" and "r < length h + length ss" for r
  proof -
    from that have "r - length h < length ss" and "r = length h + (r - length h)" by simp_all
    with st [of "r - length h"] show ?thesis by simp
  qed
  then show "list_all (\<lambda>r. step_at h2 r \<noteq> None) [length h..<length h + length ss]"
    by (simp add: list_all_iff)
qed

lemma initializeTodo_ref_unfold:
  "initializeTodo_ref h m entries =
     ((h @ map StepObject (steps (initializeTodo m0 entries)))
        @ [ArrayObject [length h..<length h + length entries]],
      m\<lparr>steps_ref := length h + length entries, next_id := length entries + 1\<rparr>)"
  by (simp add: initializeTodo_ref_def initializeTodo_def allocate_def Let_def elements_def
      lookup_def nth_append case_prod_unfold comp_def)

lemma initializeTodo_ref_valid: "valid_store (initializeTodo_ref h m entries)"
proof -
  let ?ss = "steps (initializeTodo new_TodoManager entries)"
  have len: "length ?ss = length entries" by (rule initializeTodo_length)
  note fb = fresh_block [of h ?ss, unfolded len]
  from fb(3) show ?thesis
    by (simp add: initializeTodo_ref_unfold [of h m entries new_TodoManager] valid_store_def
        fb(1) del: append_assoc)
qed

lemma initializeTodo_ref_abstraction:
  "abstraction (initializeTodo_ref h m entries) = initializeTodo (abstraction (h, m)) entries"
proof -
  let ?ss = "steps (initializeTodo new_TodoManager entries)"
  have len: "length ?ss = length entries" by (rule initializeTodo_length)
  note fb = fresh_block [of h ?ss, unfolded len]
  have "abstraction (initializeTodo_ref h m entries)
        = \<lparr>steps = ?ss, nextId = length entries + 1\<rparr>"
    by (simp add: initializeTodo_ref_unfold [of h m entries new_TodoManager] abstraction_def
        fb(2) comp_def del: append_assoc)
  also have "\<dots> = initializeTodo (abstraction (h, m)) entries"
    by (simp add: initializeTodo_def Let_def)
  finally show ?thesis .
qed

lemma step_at_update_other: "r \<noteq> a \<Longrightarrow> step_at (h[a := c]) r = step_at h r"
  by (simp add: step_at_def lookup_update)

lemma elements_update_same: "a < length h \<Longrightarrow> elements (h[a := ArrayObject rs]) a = rs"
  by (simp add: elements_def lookup_update)

lemma elements_update_step: "elements (h[a := StepObject s]) r = (if r = a \<and> a < length h then [] else elements h r)"
  by (simp add: elements_def lookup_update)

lemma contents_update_array:
  assumes v: "valid_store (h, m)" and sub: "set rs \<subseteq> set (elements h (steps_ref m))"
  shows "contents (h[steps_ref m := ArrayObject rs]) (steps_ref m) = map (step_at h) rs"
proof -
  from v have sr: "steps_ref m < length h" by (simp add: valid_store_iff)
  have "step_at (h[steps_ref m := ArrayObject rs]) r = step_at h r" if "r \<in> set rs" for r
    using valid_store_element(2) [OF v] sub that by (intro step_at_update_other) blast
  with sr show ?thesis by (simp add: contents_def elements_update_same)
qed

lemma valid_update_array:
  assumes v: "valid_store (h, m)" and sub: "set rs \<subseteq> set (elements h (steps_ref m))"
    and d: "distinct rs"
  shows "valid_store (h[steps_ref m := ArrayObject rs], m)"
proof -
  from v have sr: "steps_ref m < length h" by (simp add: valid_store_iff)
  have "step_at (h[steps_ref m := ArrayObject rs]) r \<noteq> None" if "r \<in> set rs" for r
  proof -
    from that sub have el: "r \<in> set (elements h (steps_ref m))" by blast
    from valid_store_element(2,3) [OF v el] show ?thesis
      by (auto simp: step_at_update_other)
  qed
  with sr d show ?thesis
    by (simp add: valid_store_iff elements_update_same del: not_None_eq)
qed

lemma addStep_ref_unfold:
  assumes "valid_store (h, m)"
  shows "addStep_ref h m t d =
     (toString (next_id m),
      h[steps_ref m := ArrayObject (elements h (steps_ref m) @ [length h])]
        @ [StepObject \<lparr>id_step = toString (next_id m), title = t, description = d, status = NOT_MADE\<rparr>],
      m\<lparr>next_id := next_id m + 1\<rparr>)"
proof -
  from assms have sr: "steps_ref m < length h" by (simp add: valid_store_iff)
  then show ?thesis
    by (simp add: addStep_ref_def allocate_def Let_def elements_append_old list_update_append1)
qed

lemma addStep_ref_contents:
  fixes t d :: string
  assumes v: "valid_store (h, m)"
  defines "new \<equiv> \<lparr>id_step = toString (next_id m), title = t, description = d, status = NOT_MADE\<rparr>"
  defines "h2 \<equiv> h[steps_ref m := ArrayObject (elements h (steps_ref m) @ [length h])] @ [StepObject new]"
  shows "elements h2 (steps_ref m) = elements h (steps_ref m) @ [length h]"
    and "map (step_at h2) (elements h (steps_ref m)) = map (step_at h) (elements h (steps_ref m))"
    and "step_at h2 (length h) = Some new"
proof -
  from v have sr: "steps_ref m < length h" by (simp add: valid_store_iff)
  then show "elements h2 (steps_ref m) = elements h (steps_ref m) @ [length h]"
    by (simp add: h2_def elements_append_old elements_update_same)
  have "step_at h2 r = step_at h r" if "r \<in> set (elements h (steps_ref m))" for r
    using valid_store_element(1,2) [OF v that]
    by (simp add: h2_def step_at_append_old step_at_update_other)
  then show "map (step_at h2) (elements h (steps_ref m)) = map (step_at h) (elements h (steps_ref m))"
    by simp
  show "step_at h2 (length h) = Some new"
    by (simp add: h2_def step_at_def lookup_def nth_append)
qed

lemma addStep_ref_valid:
  assumes v: "valid_store (h, m)"
  shows "valid_store (snd (addStep_ref h m t d))"
proof -
  note c = addStep_ref_contents [OF v, of t d]
  from v have sr: "steps_ref m < length h" by (simp add: valid_store_iff)
  from v have old: "\<forall>r \<in> set (elements h (steps_ref m)). step_at h r \<noteq> None"
    and d: "distinct (elements h (steps_ref m))"
    by (simp_all add: valid_store_iff)
  have fresh: "length h \<notin> set (elements h (steps_ref m))"
    using valid_store_element(1) [OF v] by blast
  have l: "lookup (h[steps_ref m := ArrayObject (elements h (steps_ref m) @ [length h])]
        @ [StepObject \<lparr>id_step = toString (next_id m), title = t, description = d, status = NOT_MADE\<rparr>])
        (steps_ref m) = Some (ArrayObject (elements h (steps_ref m) @ [length h]))"
    using sr by (simp add: lookup_append lookup_update)
  have "list_all (\<lambda>r. step_at (h[steps_ref m := ArrayObject (elements h (steps_ref m) @ [length h])]
        @ [StepObject \<lparr>id_step = toString (next_id m), title = t, description = d, status = NOT_MADE\<rparr>]) r \<noteq> None)
          (elements h (steps_ref m))"
    using old c(2) unfolding list_all_iff by (metis map_eq_conv)
  with d fresh c(3) show ?thesis
    by (simp add: addStep_ref_unfold [OF v] valid_store_def l del: not_None_eq)
qed

lemma addStep_ref_abstraction:
  assumes v: "valid_store (h, m)"
  shows "fst (addStep_ref h m t d) = fst (addStep (abstraction (h, m)) t d)"
    and "abstraction (snd (addStep_ref h m t d)) = snd (addStep (abstraction (h, m)) t d)"
proof -
  note c = addStep_ref_contents [OF v, of t d]
  show "fst (addStep_ref h m t d) = fst (addStep (abstraction (h, m)) t d)"
    by (simp add: addStep_ref_unfold [OF v] addStep_def abstraction_def Let_def)
  show "abstraction (snd (addStep_ref h m t d)) = snd (addStep (abstraction (h, m)) t d)"
    by (simp add: addStep_ref_unfold [OF v] addStep_def abstraction_def Let_def contents_def c)
qed

lemma findIndex_map: "findIndex P (map f xs) = findIndex (\<lambda>x. P (f x)) xs"
  by (induction xs) simp_all

lemma findIndex_cong: "(\<And>x. x \<in> set xs \<Longrightarrow> P x = Q x) \<Longrightarrow> findIndex P xs = findIndex Q xs"
  by (induction xs) simp_all

lemma splice1_map: "map f (splice1 k xs) = splice1 k (map f xs)"
  by (simp add: splice1_def take_map drop_map)

lemma set_splice1: "set (splice1 k xs) \<subseteq> set xs"
  using set_take_subset [of "nat k" xs] set_drop_subset [of "nat k + 1" xs]
  by (auto simp: splice1_def)

lemma distinct_splice1: "distinct xs \<Longrightarrow> distinct (splice1 k xs)"
  by (simp add: splice1_def set_take_disj_set_drop_if_distinct)

lemma has_id_the:
  "step_at h r \<noteq> None \<Longrightarrow> has_id h i r = (id_step (the (step_at h r)) = i)"
  by (auto simp: has_id_def)

lemma findIndex_refs:
  assumes "valid_store (h, m)"
  shows "findIndex (\<lambda>step. id_step step = i) (steps (abstraction (h, m)))
         = findIndex (has_id h i) (elements h (steps_ref m))"
proof -
  have "findIndex (\<lambda>step. id_step step = i) (steps (abstraction (h, m)))
        = findIndex (\<lambda>r. id_step (the (step_at h r)) = i) (elements h (steps_ref m))"
    by (simp add: abstraction_def contents_def findIndex_map)
  also have "\<dots> = findIndex (has_id h i) (elements h (steps_ref m))"
  proof (rule findIndex_cong)
    fix x
    assume "x \<in> set (elements h (steps_ref m))"
    with valid_store_element(3) [OF assms] have "step_at h x \<noteq> None" by auto
    then show "(id_step (the (step_at h x)) = i) = has_id h i x"
      by (simp add: has_id_the del: not_None_eq)
  qed
  finally show ?thesis .
qed

lemma deleteStep_ref_valid:
  assumes v: "valid_store (h, m)"
  shows "valid_store (snd (deleteStep_ref h m i))"
proof -
  from v have d: "distinct (elements h (steps_ref m))" by (simp add: valid_store_iff)
  from v valid_update_array [OF v set_splice1 distinct_splice1 [OF d]]
  show ?thesis by (simp add: deleteStep_ref_def Let_def)
qed

lemma deleteStep_ref_abstraction:
  assumes v: "valid_store (h, m)"
  shows "fst (deleteStep_ref h m i) = fst (deleteStep (abstraction (h, m)) i)"
    and "abstraction (snd (deleteStep_ref h m i)) = snd (deleteStep (abstraction (h, m)) i)"
proof -
  note fi = findIndex_refs [OF v, of i]
  show "fst (deleteStep_ref h m i) = fst (deleteStep (abstraction (h, m)) i)"
    by (simp add: deleteStep_ref_def deleteStep_def Let_def fi)
  have "map the (contents (h[steps_ref m := ArrayObject (splice1 k (elements h (steps_ref m)))]) (steps_ref m))
        = splice1 k (map the (contents h (steps_ref m)))" for k
  proof -
    have "contents (h[steps_ref m := ArrayObject (splice1 k (elements h (steps_ref m)))]) (steps_ref m)
          = map (step_at h) (splice1 k (elements h (steps_ref m)))"
      by (rule contents_update_array [OF v set_splice1])
    then show ?thesis
      by (simp only: splice1_map contents_def)
  qed
  then show "abstraction (snd (deleteStep_ref h m i)) = snd (deleteStep (abstraction (h, m)) i)"
    by (simp add: deleteStep_ref_def deleteStep_def Let_def fi) (simp add: abstraction_def)
qed

lemma find_refs:
  "\<forall>r \<in> set rs. step_at h r \<noteq> None \<Longrightarrow>
   find (\<lambda>step. id_step step = i) (map (\<lambda>r. the (step_at h r)) rs)
   = map_option (\<lambda>r. the (step_at h r)) (find (has_id h i) rs)"
  by (induction rs) (auto simp: has_id_def)

lemma find_Some_mem: "find P xs = Some x \<Longrightarrow> x \<in> set xs \<and> P x"
  by (induction xs) (auto split: if_splits)

lemma assign_status_refs:
  assumes "distinct rs" and "\<forall>r \<in> set rs. step_at h r \<noteq> None"
    and "find (has_id h i) rs = Some r" and "step_at h r = Some step"
  shows "map (\<lambda>x. the (step_at (h[r := StepObject (step\<lparr>status := st\<rparr>)]) x)) rs
         = assign_status i st (map (\<lambda>x. the (step_at h x)) rs)"
  using assms
proof (induction rs)
  case Nil
  then show ?case by simp
next
  case (Cons a rs)
  let ?h = "h[r := StepObject (step\<lparr>status := st\<rparr>)]"
  show ?case
  proof (cases "has_id h i a")
    case True
    with Cons.prems have ar: "a = r" by simp
    from Cons.prems(4) have rl: "r < length h" by (rule step_at_Some_less)
    from Cons.prems(1) ar have "r \<notin> set rs" by simp
    then have "step_at ?h x = step_at h x" if "x \<in> set rs" for x
      using that by (intro step_at_update_other) blast
    then have "map (\<lambda>x. the (step_at ?h x)) rs = map (\<lambda>x. the (step_at h x)) rs"
      by simp
    moreover from rl have "step_at ?h r = Some (step\<lparr>status := st\<rparr>)"
      by (simp add: step_at_def lookup_update)
    moreover from True ar Cons.prems(4) have "id_step step = i"
      by (simp add: has_id_def)
    ultimately show ?thesis using ar Cons.prems(4) by simp
  next
    case False
    with Cons.prems have f: "find (has_id h i) rs = Some r" by simp
    from find_Some_mem [OF f] False have "a \<noteq> r" by auto
    then have "step_at ?h a = step_at h a" by (simp add: step_at_update_other)
    moreover from Cons.prems(2) False have "id_step (the (step_at h a)) \<noteq> i"
      by (auto simp: has_id_def)
    moreover from Cons.prems f have "map (\<lambda>x. the (step_at ?h x)) rs
         = assign_status i st (map (\<lambda>x. the (step_at h x)) rs)"
      by (intro Cons.IH) simp_all
    ultimately show ?thesis by simp
  qed
qed

lemma updateStatus_ref_cases:
  assumes v: "valid_store (h, m)"
  shows "(find (has_id h i) (elements h (steps_ref m)) = None
            \<and> updateStatus_ref h m i st = (False, h, m))
         \<or> (\<exists>r step. find (has_id h i) (elements h (steps_ref m)) = Some r
               \<and> step_at h r = Some step \<and> r \<in> set (elements h (steps_ref m))
               \<and> updateStatus_ref h m i st = (True, h[r := StepObject (step\<lparr>status := st\<rparr>)], m))"
proof (cases "find (has_id h i) (elements h (steps_ref m))")
  case None
  then show ?thesis by (simp add: updateStatus_ref_def)
next
  case (Some r)
  from find_Some_mem [OF Some] have mem: "r \<in> set (elements h (steps_ref m))" by simp
  from valid_store_element(3) [OF v mem] obtain step where "step_at h r = Some step" by blast
  with Some mem show ?thesis by (simp add: updateStatus_ref_def)
qed

lemma updateStatus_ref_valid:
  assumes v: "valid_store (h, m)"
  shows "valid_store (snd (updateStatus_ref h m i st))"
  using updateStatus_ref_cases [OF v, of i st]
proof (elim disjE exE conjE)
  assume "updateStatus_ref h m i st = (False, h, m)"
  with v show ?thesis by simp
next
  fix r step
  assume mem: "r \<in> set (elements h (steps_ref m))" and at: "step_at h r = Some step"
    and u: "updateStatus_ref h m i st = (True, h[r := StepObject (step\<lparr>status := st\<rparr>)], m)"
  let ?h = "h[r := StepObject (step\<lparr>status := st\<rparr>)]"
  from valid_store_element(1,2) [OF v mem] have rl: "r < length h" and rne: "r \<noteq> steps_ref m" .
  from rne have el: "elements ?h (steps_ref m) = elements h (steps_ref m)"
    by (simp add: elements_update_step)
  have "step_at ?h x \<noteq> None" if "x \<in> set (elements h (steps_ref m))" for x
  proof (cases "x = r")
    case True
    with rl show ?thesis by (simp add: step_at_def lookup_update)
  next
    case False
    with valid_store_element(3) [OF v that] show ?thesis
      by (auto simp: step_at_update_other)
  qed
  with v rne show ?thesis
    by (simp add: u valid_store_iff el del: not_None_eq)
qed

lemma updateStatus_ref_abstraction:
  assumes v: "valid_store (h, m)"
  shows "fst (updateStatus_ref h m i st) = fst (updateStatus (abstraction (h, m)) i st)"
    and "abstraction (snd (updateStatus_ref h m i st)) = snd (updateStatus (abstraction (h, m)) i st)"
proof -
  let ?rs = "elements h (steps_ref m)"
  from v have all: "\<forall>r \<in> set ?rs. step_at h r \<noteq> None" and d: "distinct ?rs"
    by (simp_all add: valid_store_iff)
  have st: "steps (abstraction (h, m)) = map (\<lambda>r. the (step_at h r)) ?rs"
    by (simp add: abstraction_def contents_def)
  note f = find_refs [OF all, of i, folded st]
  have "fst (updateStatus_ref h m i st) = fst (updateStatus (abstraction (h, m)) i st)
        \<and> abstraction (snd (updateStatus_ref h m i st)) = snd (updateStatus (abstraction (h, m)) i st)"
    using updateStatus_ref_cases [OF v, of i st]
  proof (elim disjE exE conjE)
    assume "find (has_id h i) ?rs = None" and "updateStatus_ref h m i st = (False, h, m)"
    then show ?thesis by (simp add: updateStatus_def f)
  next
    fix r step
    assume fr: "find (has_id h i) ?rs = Some r" and at: "step_at h r = Some step"
      and mem: "r \<in> set ?rs"
      and u: "updateStatus_ref h m i st = (True, h[r := StepObject (step\<lparr>status := st\<rparr>)], m)"
    let ?h = "h[r := StepObject (step\<lparr>status := st\<rparr>)]"
    from valid_store_element(2) [OF v mem] have el: "elements ?h (steps_ref m) = ?rs"
      by (simp add: elements_update_step)
    have "steps (abstraction (?h, m)) = assign_status i st (steps (abstraction (h, m)))"
      unfolding st using assign_status_refs [OF d all fr at, of st]
      by (simp add: abstraction_def contents_def el comp_def)
    then have "abstraction (?h, m) = (abstraction (h, m))\<lparr>steps := assign_status i st (steps (abstraction (h, m)))\<rparr>"
      by (simp add: abstraction_def)
    with fr show ?thesis by (simp add: u updateStatus_def f)
  qed
  then show "fst (updateStatus_ref h m i st) = fst (updateStatus (abstraction (h, m)) i st)"
    and "abstraction (snd (updateStatus_ref h m i st)) = snd (updateStatus (abstraction (h, m)) i st)"
    by simp_all
qed

lemma apply_op_ref_valid: "valid_store s \<Longrightarrow> valid_store (apply_op_ref s x)"
  by (cases s; cases x)
    (simp_all add: initializeTodo_ref_valid addStep_ref_valid deleteStep_ref_valid
      updateStatus_ref_valid clearTodo_ref_valid)

lemma apply_op_ref_abstraction:
  "valid_store s \<Longrightarrow> abstraction (apply_op_ref s x) = apply_op (abstraction s) x"
  by (cases s; cases x)
    (simp_all add: initializeTodo_ref_abstraction addStep_ref_abstraction
      deleteStep_ref_abstraction updateStatus_ref_abstraction clearTodo_ref_abstraction)

lemma foldl_apply_op_ref:
  "valid_store s \<Longrightarrow>
   valid_store (foldl apply_op_ref s ops)
   \<and> abstraction (foldl apply_op_ref s ops) = foldl apply_op (abstraction s) ops"
  by (induction ops arbitrary: s) (simp_all add: apply_op_ref_valid apply_op_ref_abstraction)

lemma run_ref_valid: "valid_store (run_ref ops)"
  using foldl_apply_op_ref [OF valid_store_new] by (simp add: run_ref_def)

text \<open>
  The two models agree: after any sequence of calls, the steps that the manager's array
  leads to in the store, with the counter, are the manager of the value model.
\<close>

lemma run_ref_abstraction: "abstraction (run_ref ops) = run new_TodoManager ops"
  using foldl_apply_op_ref [OF valid_store_new] by (simp add: run_ref_def run_def abstraction_new)

lemma listed_getSteps: "map the (listed (run_ref ops)) = getSteps (run new_TodoManager ops)"
proof -
  obtain h m where s: "run_ref ops = (h, m)" by (cases "run_ref ops")
  with run_ref_valid [of ops] have "listed (h, m) = contents h (steps_ref m)"
    by (simp add: listed_contents)
  moreover from s have "steps (abstraction (run_ref ops)) = map the (contents h (steps_ref m))"
    by (simp add: abstraction_def)
  ultimately show ?thesis
    by (simp add: s getSteps_def run_ref_abstraction [symmetric])
qed

subsection \<open>What the caller of \<^verbatim>\<open>getSteps\<close> can change\<close>

lemma listed_after_SetField:
  assumes v: "valid_store (h, m)" and i: "i < length (listed (h, m))"
  shows "listed_after (h, m) (SetField i f v)
         = (listed (h, m))[i := map_option (set_field f v) (listed (h, m) ! i)]"
proof -
  let ?rs = "elements h (steps_ref m)"
  let ?h1 = "h @ [ArrayObject ?rs]"
  from v have sr: "steps_ref m < length h" and d: "distinct ?rs" by (simp_all add: valid_store_iff)
  have l: "listed (h, m) = map (step_at h) ?rs"
    using v by (simp add: listed_contents contents_def)
  with i have i': "i < length ?rs" by simp
  then have mem: "?rs ! i \<in> set ?rs" by simp
  from valid_store_element [OF v mem] obtain s
    where rl: "?rs ! i < length h" and rne: "?rs ! i \<noteq> steps_ref m" and at: "step_at h (?rs ! i) = Some s"
    by blast
  let ?h2 = "h[?rs ! i := StepObject (set_field f v s)]"
  have el1: "elements ?h1 (length h) = ?rs"
    by (simp add: elements_def lookup_def)
  from rl at have at1: "step_at ?h1 (?rs ! i) = Some s"
    by (simp add: step_at_append_old)
  from rl have upd: "?h1[?rs ! i := StepObject (set_field f v s)] = ?h2 @ [ArrayObject ?rs]"
    by (simp add: list_update_append1)
  have after: "listed_after (h, m) (SetField i f v) = listed (?h2 @ [ArrayObject ?rs], m)"
    using i' by (simp add: listed_after_def getSteps_ref_def allocate_def el1 at1 upd)
  from rne have el2: "elements ?h2 (steps_ref m) = ?rs"
    by (simp add: elements_update_step)
  have at2: "step_at ?h2 x = (if x = ?rs ! i then Some (set_field f v s) else step_at h x)" for x
    using rl by (simp add: step_at_def lookup_update)
  have v2: "valid_store (?h2, m)"
    using v rne sr by (auto simp: valid_store_iff el2 at2)
  have "map (step_at ?h2) ?rs = (map (step_at h) ?rs)[i := Some (set_field f v s)]"
  proof (rule nth_equalityI)
    show "length (map (step_at ?h2) ?rs) = length ((map (step_at h) ?rs)[i := Some (set_field f v s)])"
      by simp
  next
    fix k
    assume "k < length (map (step_at ?h2) ?rs)"
    then have k: "k < length ?rs" by simp
    with d i' have "(?rs ! k = ?rs ! i) = (k = i)" by (simp add: nth_eq_iff_index_eq)
    with k show "map (step_at ?h2) ?rs ! k = (map (step_at h) ?rs)[i := Some (set_field f v s)] ! k"
      by (simp add: at2 nth_list_update)
  qed
  with after i' at show ?thesis
    by (simp add: listed_append [OF v2] contents_def el2 l)
qed

text \<open>
  C3, as the code has it. In every state of the store that calls of the manager's
  methods lead to, \<^verbatim>\<open>getSteps\<close> returns a new array that holds references to the same
  step objects, in the same order. Whatever the caller does to the returned array
  itself, a later \<^verbatim>\<open>getSteps\<close> shows the same steps as before. The step objects are
  shared with the store: after the caller assigns to a field of the i-th returned step,
  a later \<^verbatim>\<open>getSteps\<close> shows the i-th step with that field changed.
\<close>

theorem getSteps_copies_the_array_only:
  "fst (getSteps_ref (fst (run_ref ops)) (snd (run_ref ops))) \<noteq> steps_ref (snd (run_ref ops))
   \<and> listed (run_ref ops) = contents (fst (run_ref ops)) (steps_ref (snd (run_ref ops)))
   \<and> listed_after (run_ref ops) (SetArray rs) = listed (run_ref ops)
   \<and> (i < length (listed (run_ref ops)) \<longrightarrow>
        listed_after (run_ref ops) (SetField i f v)
        = (listed (run_ref ops))[i := map_option (set_field f v) (listed (run_ref ops) ! i)])"
proof -
  obtain h m where s: "run_ref ops = (h, m)" by (cases "run_ref ops")
  with run_ref_valid [of ops] have v: "valid_store (h, m)" by simp
  then have "steps_ref m < length h" by (simp add: valid_store_iff)
  then have "fst (getSteps_ref h m) \<noteq> steps_ref m"
    by (simp add: getSteps_ref_def allocate_def)
  with listed_contents [OF v] listed_after_SetArray [OF v] listed_after_SetField [OF v]
  show ?thesis by (simp add: s)
qed

theorem getSteps_copies_the_array_only_witness:
  "0 < length (listed (run_ref [Add ''A'' ''a'', Add ''B'' ''b'']))
   \<and> listed (run_ref [Add ''A'' ''a'', Add ''B'' ''b''])
     = [Some \<lparr>id_step = ''1'', title = ''A'', description = ''a'', status = ''not_made''\<rparr>,
        Some \<lparr>id_step = ''2'', title = ''B'', description = ''b'', status = ''not_made''\<rparr>]
   \<and> listed_after (run_ref [Add ''A'' ''a'', Add ''B'' ''b'']) (SetArray [])
     = [Some \<lparr>id_step = ''1'', title = ''A'', description = ''a'', status = ''not_made''\<rparr>,
        Some \<lparr>id_step = ''2'', title = ''B'', description = ''b'', status = ''not_made''\<rparr>]
   \<and> listed_after (run_ref [Add ''A'' ''a'', Add ''B'' ''b'']) (SetField 0 Field_status ''made'')
     = [Some \<lparr>id_step = ''1'', title = ''A'', description = ''a'', status = ''made''\<rparr>,
        Some \<lparr>id_step = ''2'', title = ''B'', description = ''b'', status = ''not_made''\<rparr>]"
proof -
  let ?s = "run_ref [Add ''A'' ''a'', Add ''B'' ''b'']"
  have l: "listed ?s
     = [Some \<lparr>id_step = ''1'', title = ''A'', description = ''a'', status = ''not_made''\<rparr>,
        Some \<lparr>id_step = ''2'', title = ''B'', description = ''b'', status = ''not_made''\<rparr>]"
    by code_simp
  then have h: "0 < length (listed ?s)" by simp
  from getSteps_copies_the_array_only [of "[Add ''A'' ''a'', Add ''B'' ''b'']" "[]" 0 Field_status "''made''"] h
  have "listed_after ?s (SetArray []) = listed ?s"
    and "listed_after ?s (SetField 0 Field_status ''made'')
         = (listed ?s)[0 := map_option (set_field Field_status ''made'') (listed ?s ! 0)]"
    by blast+
  with h l show ?thesis by simp
qed

text \<open>
  C3 as stated fails: the caller assigns to the status of the step it was given, and the
  next \<^verbatim>\<open>getSteps\<close> shows the changed status.
\<close>

theorem getSteps_elements_are_shared:
  "listed_after (run_ref [Add ''A'' ''a'']) (SetField 0 Field_status ''made'')
   \<noteq> listed (run_ref [Add ''A'' ''a''])"
  by code_simp

end
